theory Spec2Isabelle
  imports Complex_Main "HOL-Library.Log_Nat"
begin

section \<open>JavaScript numbers\<close>

text \<open>
  The scoring code computes with JavaScript numbers, which are IEEE 754 doubles. A number
  is modelled by the rational it denotes, or one of the two infinities, or NaN, so that a
  division by zero is a value of the model as it is a value of the program
  (\<^verbatim>\<open>5 / 0\<close> is \<^verbatim>\<open>Infinity\<close>, \<^verbatim>\<open>0 / 0\<close> is \<^verbatim>\<open>NaN\<close>). Every
  arithmetic operation rounds its exact result to the nearest double, a tie going to the
  even significand (\<open>round_double\<close>). The sign of zero is not modelled: no operation
  of the modelled code tells the two zeros apart.
\<close>

datatype jsnum = Num rat | PosInf | NegInf | NaN

text \<open>The nearest integer, a tie going to the even one.\<close>

definition rne :: "rat \<Rightarrow> int" where
  "rne x =
     (let f = \<lfloor>x\<rfloor>; d = x - of_int f
      in if d < 1 / 2 then f else if 1 / 2 < d then f + 1 else if even f then f else f + 1)"

text \<open>The binary exponent of a positive rational: \<open>2 powi e \<le> a < 2 powi (e + 1)\<close>.\<close>

definition ilog2 :: "rat \<Rightarrow> int" where
  "ilog2 a =
     (if 1 \<le> a then int (floorlog 2 (nat \<lfloor>a\<rfloor>)) - 1
      else - int (floorlog 2 (nat \<lceil>1 / a\<rceil> - 1)))"

text \<open>
  The exponent of the least significant bit of the subnormal doubles, and the magnitude
  from which a rounded result overflows to an infinity.
\<close>

definition least_exponent :: int where
  "least_exponent = - 1074"

definition overflow_threshold :: rat where
  "overflow_threshold = 2 ^ 1024"

text \<open>
  A positive rational rounded to 53 significant bits, or to a multiple of
  \<open>2 powi least_exponent\<close> where it is subnormal.
\<close>

definition round_magnitude :: "rat \<Rightarrow> rat" where
  "round_magnitude a =
     (let p = max (ilog2 a - 52) least_exponent
      in of_int (rne (a / 2 powi p)) * 2 powi p)"

definition round_double :: "rat \<Rightarrow> jsnum" where
  "round_double x =
     (if x = 0 then Num 0
      else
        let r = round_magnitude \<bar>x\<bar>
        in if overflow_threshold \<le> r then (if 0 < x then PosInf else NegInf)
           else Num (if 0 < x then r else - r))"

fun js_neg :: "jsnum \<Rightarrow> jsnum" where
  "js_neg (Num a) = Num (- a)"
| "js_neg PosInf = NegInf"
| "js_neg NegInf = PosInf"
| "js_neg NaN = NaN"

fun js_add :: "jsnum \<Rightarrow> jsnum \<Rightarrow> jsnum" where
  "js_add NaN _ = NaN"
| "js_add _ NaN = NaN"
| "js_add (Num a) (Num b) = round_double (a + b)"
| "js_add PosInf NegInf = NaN"
| "js_add NegInf PosInf = NaN"
| "js_add PosInf _ = PosInf"
| "js_add _ PosInf = PosInf"
| "js_add NegInf _ = NegInf"
| "js_add _ NegInf = NegInf"

definition js_sub :: "jsnum \<Rightarrow> jsnum \<Rightarrow> jsnum" where
  "js_sub x y = js_add x (js_neg y)"

definition js_sign_inf :: "bool \<Rightarrow> jsnum" where
  "js_sign_inf positive = (if positive then PosInf else NegInf)"

fun js_mul :: "jsnum \<Rightarrow> jsnum \<Rightarrow> jsnum" where
  "js_mul NaN _ = NaN"
| "js_mul _ NaN = NaN"
| "js_mul (Num a) (Num b) = round_double (a * b)"
| "js_mul (Num a) PosInf = (if a = 0 then NaN else js_sign_inf (0 < a))"
| "js_mul (Num a) NegInf = (if a = 0 then NaN else js_sign_inf (a < 0))"
| "js_mul PosInf (Num b) = (if b = 0 then NaN else js_sign_inf (0 < b))"
| "js_mul NegInf (Num b) = (if b = 0 then NaN else js_sign_inf (b < 0))"
| "js_mul PosInf PosInf = PosInf"
| "js_mul NegInf NegInf = PosInf"
| "js_mul PosInf NegInf = NegInf"
| "js_mul NegInf PosInf = NegInf"

fun js_div :: "jsnum \<Rightarrow> jsnum \<Rightarrow> jsnum" where
  "js_div NaN _ = NaN"
| "js_div _ NaN = NaN"
| "js_div (Num a) (Num b) =
     (if b = 0 then (if a = 0 then NaN else js_sign_inf (0 < a)) else round_double (a / b))"
| "js_div (Num a) PosInf = Num 0"
| "js_div (Num a) NegInf = Num 0"
| "js_div PosInf (Num b) = js_sign_inf (0 \<le> b)"
| "js_div NegInf (Num b) = js_sign_inf (b < 0)"
| "js_div _ _ = NaN"

text \<open>\<^verbatim>\<open>Math.max\<close>: NaN when either argument is NaN.\<close>

fun js_max :: "jsnum \<Rightarrow> jsnum \<Rightarrow> jsnum" where
  "js_max NaN _ = NaN"
| "js_max _ NaN = NaN"
| "js_max PosInf _ = PosInf"
| "js_max _ PosInf = PosInf"
| "js_max NegInf y = y"
| "js_max x NegInf = x"
| "js_max (Num a) (Num b) = Num (max a b)"

text \<open>\<^verbatim>\<open>Math.round\<close>: the nearest integer, a tie going up.\<close>

fun js_round :: "jsnum \<Rightarrow> jsnum" where
  "js_round (Num a) = Num (of_int \<lfloor>a + 1 / 2\<rfloor>)"
| "js_round x = x"

section \<open>Strings\<close>

text \<open>
  \<^verbatim>\<open>toLowerCase\<close>, \<^verbatim>\<open>toUpperCase\<close> and \<^verbatim>\<open>trim\<close> are methods of the
  platform, not of the program. The code that calls them is modelled over any three
  functions on strings, the parameter \<open>js\<close> of the definitions below, so that what is
  proved holds of every string under every case mapping.
\<close>

record StringPrototype =
  toLowerCase :: "string \<Rightarrow> string"
  toUpperCase :: "string \<Rightarrow> string"
  trim :: "string \<Rightarrow> string"

text \<open>The decimal digits of a counter, as a template literal prints it.\<close>

definition digit_char :: "nat \<Rightarrow> char" where
  "digit_char d = char_of (48 + d)"

fun string_of_nat :: "nat \<Rightarrow> string" where
  "string_of_nat n =
     (if n < 10 then [digit_char n]
      else string_of_nat (n div 10) @ [digit_char (n mod 10)])"

declare string_of_nat.simps [simp del]

text \<open>
  The one property of the case mapping that relates the check of the join loop to the name
  it assigns: a decimal suffix is left alone, and does not change the mapping of what
  precedes it.
\<close>

definition lower_keeps_suffix :: "StringPrototype \<Rightarrow> bool" where
  "lower_keeps_suffix js =
     (\<forall>s n. toLowerCase js (s @ string_of_nat n) = toLowerCase js s @ string_of_nat n)"

text \<open>
  The three methods on strings of ASCII characters, where they map the 26 letters and
  strip the six blank characters. The examples run on these.
\<close>

definition lower_char :: "char \<Rightarrow> char" where
  "lower_char c =
     (let n = (of_char c :: nat) in if 65 \<le> n \<and> n \<le> 90 then char_of (n + 32) else c)"

definition upper_char :: "char \<Rightarrow> char" where
  "upper_char c =
     (let n = (of_char c :: nat) in if 97 \<le> n \<and> n \<le> 122 then char_of (n - 32) else c)"

definition is_space :: "char \<Rightarrow> bool" where
  "is_space c = ((of_char c :: nat) \<in> set [9, 10, 11, 12, 13, 32])"

definition ascii_strings :: StringPrototype where
  "ascii_strings =
     \<lparr>toLowerCase = map lower_char, toUpperCase = map upper_char,
      trim = (\<lambda>s. rev (dropWhile is_space (rev (dropWhile is_space s))))\<rparr>"

section \<open>Data model (\<^verbatim>\<open>src/lib/types.ts\<close>, \<^verbatim>\<open>supabase/schema.sql\<close>)\<close>

text \<open>
  Rows are records with the columns the modelled code reads or writes. Identifiers are
  opaque, times are milliseconds since the epoch. A column name used by several tables
  carries the table's initial (\<open>s_id\<close>, \<open>p_session_id\<close>, \<open>a_question_id\<close>).
\<close>

type_synonym uuid = nat

datatype SessionStatus = lobby | playing | finished

record Game =
  g_id :: uuid
  g_timer_seconds :: int
  g_speed_bonus :: bool

record GameQuestionChoice =
  c_id :: uuid
  c_question_id :: uuid
  c_is_correct :: bool

record GameQuestionWithChoices =
  gq_id :: uuid
  game_question_choices :: "GameQuestionChoice list"

record Session =
  s_id :: uuid
  game_id :: uuid
  host_id :: uuid
  code :: string
  status :: SessionStatus
  current_question_index :: int
  timer_seconds :: int
  speed_bonus :: bool
  ended_at :: "int option"

record SessionPlayer =
  p_id :: uuid
  p_session_id :: uuid
  display_name :: string
  avatar_color :: string
  score :: int
  is_removed :: bool

record SessionQuestionState =
  q_id :: uuid
  q_session_id :: uuid
  question_index :: int
  question_id :: uuid
  started_at :: "int option"
  ends_at :: "int option"
  is_paused :: bool
  paused_remaining_ms :: "int option"
  is_locked :: bool
  show_results :: bool
  show_leaderboard :: bool

record SessionAnswer =
  a_session_id :: uuid
  a_player_id :: uuid
  a_question_id :: uuid
  choice_id :: uuid
  is_correct :: bool
  time_ms :: int
  points_awarded :: int

record database =
  sessions :: "Session list"
  session_players :: "SessionPlayer list"
  session_answers :: "SessionAnswer list"

section \<open>The store: policies, constraints and the score trigger\<close>

text \<open>
  An insert is checked against the table's row-level-security policy and its uniqueness
  constraint, in that order, and either fails with an error and leaves the store as it
  is, or appends the row. Rows referenced by a foreign key are taken to exist, and a
  generated primary key to be fresh.
\<close>

datatype db_error = RowLevelSecurity | UniqueViolation | NotNullViolation | InvalidInteger

text \<open>
  \<^verbatim>\<open>maybeSingle()\<close>: the row when the query matches exactly one, null when it matches
  none, and null (with an error the callers ignore) when it matches several.
\<close>

definition maybeSingle :: "'a list \<Rightarrow> 'a option" where
  "maybeSingle rows = (case rows of [r] \<Rightarrow> Some r | _ \<Rightarrow> None)"

text \<open>
  A JavaScript number sent to an \<^verbatim>\<open>int\<close> column: a fraction or a value outside
  32 bits is refused; NaN and the infinities are serialised as null, which the columns
  declared \<^verbatim>\<open>not null\<close> refuse.
\<close>

fun pg_int :: "jsnum \<Rightarrow> db_error + int" where
  "pg_int (Num a) =
     (if of_int \<lfloor>a\<rfloor> = a \<and> - 2147483648 \<le> \<lfloor>a\<rfloor> \<and> \<lfloor>a\<rfloor> \<le> 2147483647
      then Inr \<lfloor>a\<rfloor> else Inl InvalidInteger)"
| "pg_int _ = Inl NotNullViolation"

text \<open>
  \<^verbatim>\<open>sessions\<close>: the unique index \<^verbatim>\<open>sessions_active_code_idx\<close> on
  \<^verbatim>\<open>(code) where status != 'finished'\<close>.
\<close>

definition insert_session :: "database \<Rightarrow> Session \<Rightarrow> db_error + database" where
  "insert_session db row =
     (if status row \<noteq> finished
         \<and> (\<exists>s \<in> set (sessions db). code s = code row \<and> status s \<noteq> finished)
      then Inl UniqueViolation
      else Inr (db\<lparr>sessions := sessions db @ [row]\<rparr>))"

text \<open>
  \<^verbatim>\<open>session_players\<close>: the policy "Anyone can join session" admits a row only when
  its session exists with status \<^verbatim>\<open>lobby\<close>.
\<close>

definition insert_session_player :: "database \<Rightarrow> SessionPlayer \<Rightarrow> db_error + database" where
  "insert_session_player db row =
     (if \<exists>s \<in> set (sessions db). s_id s = p_session_id row \<and> status s = lobby
      then Inr (db\<lparr>session_players := session_players db @ [row]\<rparr>)
      else Inl RowLevelSecurity)"

text \<open>
  The trigger \<^verbatim>\<open>on_answer_inserted\<close>: the player's score becomes the sum of the
  points of all their answers in the session.
\<close>

definition update_player_score :: "SessionAnswer \<Rightarrow> database \<Rightarrow> database" where
  "update_player_score NEW db =
     db\<lparr>session_players :=
          map (\<lambda>p. if p_id p = a_player_id NEW
                    then p\<lparr>score := sum_list (map points_awarded
                           (filter (\<lambda>b. a_player_id b = a_player_id NEW
                                         \<and> a_session_id b = a_session_id NEW)
                              (session_answers db)))\<rparr>
                    else p)
            (session_players db)\<rparr>"

definition answer_key :: "SessionAnswer \<Rightarrow> uuid \<times> uuid \<times> uuid" where
  "answer_key a = (a_session_id a, a_player_id a, a_question_id a)"

text \<open>
  \<^verbatim>\<open>session_answers\<close>: the policy "Anyone can submit answers" (the session is
  \<^verbatim>\<open>playing\<close>), then \<^verbatim>\<open>unique(session_id, player_id, question_id)\<close>, then the
  trigger.
\<close>

definition insert_session_answer :: "database \<Rightarrow> SessionAnswer \<Rightarrow> db_error + database" where
  "insert_session_answer db row =
     (if \<not> (\<exists>s \<in> set (sessions db). s_id s = a_session_id row \<and> status s = playing)
      then Inl RowLevelSecurity
      else if \<exists>b \<in> set (session_answers db). answer_key b = answer_key row
      then Inl UniqueViolation
      else Inr (update_player_score row (db\<lparr>session_answers := session_answers db @ [row]\<rparr>)))"

section \<open>Scoring (\<^verbatim>\<open>src/lib/scoring.ts\<close>)\<close>

definition BASE_POINTS :: rat where
  "BASE_POINTS = 1000"

definition MAX_SPEED_BONUS :: rat where
  "MAX_SPEED_BONUS = 500"

definition calculatePoints :: "bool \<Rightarrow> jsnum \<Rightarrow> jsnum \<Rightarrow> bool \<Rightarrow> jsnum" where
  "calculatePoints isCorrect timeMs timerSeconds speedBonusEnabled =
     (if \<not> isCorrect then Num 0
      else
        let points = Num BASE_POINTS in
        if speedBonusEnabled then
          let totalMs = js_mul timerSeconds (Num 1000);
              fraction = js_max (Num 0) (js_sub (Num 1) (js_div timeMs totalMs))
          in js_add points (js_round (js_mul (Num MAX_SPEED_BONUS) fraction))
        else points)"

text \<open>
  The point computation written out inside the player page's \<^verbatim>\<open>handleAnswer\<close>:
  \<^verbatim>\<open>points\<close> starts at 0 and is assigned only when the answer is correct.
\<close>

definition handleAnswer_points :: "bool \<Rightarrow> jsnum \<Rightarrow> jsnum \<Rightarrow> bool \<Rightarrow> jsnum" where
  "handleAnswer_points isCorrect timeMs session_timer_seconds session_speed_bonus =
     (let points = Num 0 in
      if isCorrect then
        let points = Num 1000 in
        if session_speed_bonus then
          let totalMs = js_mul session_timer_seconds (Num 1000);
              fraction = js_max (Num 0) (js_sub (Num 1) (js_div timeMs totalMs))
          in js_add points (js_round (js_mul (Num 500) fraction))
        else points
      else points)"


section \<open>The player page (\<^verbatim>\<open>/play/[sessionCode]\<close>)\<close>

datatype ui_error = Msg string | Thrown db_error

datatype PlayerPhase =
  PhaseJoining | PhaseLobby | PhaseQuestion | PhaseAnswered | PhaseResults
  | PhaseLeaderboard | PhaseFinished | PhaseRemoved | PhaseError

record PlayerPage =
  phase :: PlayerPhase
  session :: "Session option"
  player :: "SessionPlayer option"
  players :: "SessionPlayer list"
  questionState :: "SessionQuestionState option"
  currentQuestion :: "GameQuestionWithChoices option"
  selectedChoiceId :: "uuid option"
  displayName :: string
  avatarColor :: string
  error :: ui_error
  joinLoading :: bool
  answerResult :: "(bool \<times> jsnum) option"

text \<open>
  \<^verbatim>\<open>findSession\<close>: the session is looked up by its code among the sessions that are
  not finished; \<open>stored\<close> is the browser's local storage, from a session's identifier to
  the player identifier saved by an earlier join.
\<close>

definition findSession ::
  "StringPrototype \<Rightarrow> string \<Rightarrow> (uuid \<Rightarrow> uuid option) \<Rightarrow> database \<Rightarrow> PlayerPage
     \<Rightarrow> PlayerPage" where
  "findSession js sessionCode stored db page =
     (case maybeSingle (filter (\<lambda>s. code s = toUpperCase js sessionCode \<and> status s \<noteq> finished)
                          (sessions db)) of
        None \<Rightarrow>
          page\<lparr>error := Msg ''Game not found. Check the code and try again.'',
               phase := PhaseError\<rparr>
      | Some data \<Rightarrow>
          let page1 = page\<lparr>session := Some data,
                           players := filter (\<lambda>p. p_session_id p = s_id data \<and> \<not> is_removed p)
                                        (session_players db)\<rparr>
          in case stored (s_id data) of
               None \<Rightarrow> page1
             | Some storedPlayerId \<Rightarrow>
                 (case maybeSingle (filter (\<lambda>p. p_id p = storedPlayerId) (session_players db)) of
                    None \<Rightarrow> page1
                  | Some existingPlayer \<Rightarrow>
                      if \<not> is_removed existingPlayer
                      then page1\<lparr>player := Some existingPlayer,
                                 phase := (if status data = lobby then PhaseLobby
                                           else if status data = playing then PhaseQuestion
                                           else PhaseFinished)\<rparr>
                      else page1\<lparr>phase := PhaseRemoved\<rparr>))"

text \<open>
  The loop of \<^verbatim>\<open>handleJoin\<close> that looks for a free suffix: \<open>names\<close> are the
  lower-cased names of the roster, \<open>lowered\<close> the lower-cased requested name. The loop
  ends because the roster is finite and no two counters print alike; the termination
  proof follows the lemmas on decimal printing below.
\<close>

function name_counter :: "string list \<Rightarrow> string \<Rightarrow> nat \<Rightarrow> nat" where
  "name_counter names lowered counter =
     (if lowered @ string_of_nat counter \<in> set names
      then name_counter names lowered (counter + 1) else counter)"
  by pat_completeness auto

definition final_name :: "StringPrototype \<Rightarrow> string list \<Rightarrow> string \<Rightarrow> string" where
  "final_name js existing requested =
     (let finalName = trim js requested;
          names = map (toLowerCase js) existing
      in if toLowerCase js finalName \<in> set names
         then finalName @ string_of_nat (name_counter names (toLowerCase js finalName) 2)
         else finalName)"

text \<open>
  The query of \<^verbatim>\<open>handleJoin\<close>: the names of the players of the session that are
  not removed.
\<close>

definition existing_names :: "database \<Rightarrow> uuid \<Rightarrow> string list" where
  "existing_names db sid =
     map display_name
       (filter (\<lambda>p. p_session_id p = sid \<and> \<not> is_removed p) (session_players db))"

text \<open>\<^verbatim>\<open>handleJoin\<close>; \<open>new_id\<close> is the identifier the store generates for the row.\<close>

definition handleJoin ::
  "StringPrototype \<Rightarrow> uuid \<Rightarrow> PlayerPage \<times> database \<Rightarrow> PlayerPage \<times> database" where
  "handleJoin js new_id st =
     (let (page, db) = st in
      case session page of
        None \<Rightarrow> (page\<lparr>error := Msg ''Enter a display name''\<rparr>, db)
      | Some sess \<Rightarrow>
          if trim js (displayName page) = []
          then (page\<lparr>error := Msg ''Enter a display name''\<rparr>, db)
          else
            let existing = existing_names db (s_id sess);
                finalName = final_name js existing (displayName page);
                newPlayer = \<lparr>p_id = new_id, p_session_id = s_id sess, display_name = finalName,
                             avatar_color = avatarColor page, score = 0, is_removed = False\<rparr>
            in case insert_session_player db newPlayer of
                 Inl e \<Rightarrow> (page\<lparr>error := Thrown e, joinLoading := False\<rparr>, db)
               | Inr db' \<Rightarrow>
                   (page\<lparr>player := Some newPlayer, phase := PhaseLobby, error := Msg [],
                         joinLoading := False\<rparr>, db'))"

text \<open>
  \<^verbatim>\<open>handleAnswer\<close>; \<open>now\<close> is the player's clock at the submission, its
  readings taken as one instant. The result of the insert is not looked at: a refused
  insert leaves the store as it was.
\<close>

definition handleAnswer :: "int \<Rightarrow> uuid \<Rightarrow> PlayerPage \<times> database \<Rightarrow> PlayerPage \<times> database" where
  "handleAnswer now choiceId st =
     (let (page, db) = st in
      case (session page, player page, questionState page, currentQuestion page,
            selectedChoiceId page) of
        (Some sess, Some pl, Some qs, Some cq, None) \<Rightarrow>
          let startedAt = (case started_at qs of Some t \<Rightarrow> t | None \<Rightarrow> now);
              timeMs = js_sub (Num (of_int now)) (Num (of_int startedAt));
              choice = find (\<lambda>c. c_id c = choiceId) (game_question_choices cq);
              isCorrect = (case choice of Some c \<Rightarrow> c_is_correct c | None \<Rightarrow> False);
              points = handleAnswer_points isCorrect timeMs (Num (of_int (timer_seconds sess)))
                         (speed_bonus sess);
              page' = page\<lparr>selectedChoiceId := Some choiceId, phase := PhaseAnswered,
                            answerResult := Some (isCorrect, points)\<rparr>;
              inserted =
                (case pg_int timeMs of
                   Inl e \<Rightarrow> Inl e
                 | Inr t \<Rightarrow>
                    (case pg_int points of
                       Inl e \<Rightarrow> Inl e
                     | Inr p \<Rightarrow>
                         insert_session_answer db
                           \<lparr>a_session_id = s_id sess, a_player_id = p_id pl,
                            a_question_id = question_id qs, choice_id = choiceId,
                            is_correct = isCorrect, time_ms = t, points_awarded = p\<rparr>))
          in (page', case inserted of Inl e \<Rightarrow> db | Inr db' \<Rightarrow> db')
      | _ \<Rightarrow> (page, db))"

section \<open>The host remote (\<^verbatim>\<open>/host/session/[sessionId]\<close>)\<close>

text \<open>
  The row \<^verbatim>\<open>startGame\<close> and \<^verbatim>\<open>nextQuestion\<close> insert into
  \<^verbatim>\<open>session_question_state\<close>; \<open>now\<close> is the host's clock.
\<close>

definition new_question_state ::
  "uuid \<Rightarrow> uuid \<Rightarrow> int \<Rightarrow> uuid \<Rightarrow> int \<Rightarrow> int \<Rightarrow> SessionQuestionState" where
  "new_question_state new_id sid idx qid now timerSeconds =
     \<lparr>q_id = new_id, q_session_id = sid, question_index = idx, question_id = qid,
      started_at = Some now, ends_at = Some (now + timerSeconds * 1000),
      is_paused = False, paused_remaining_ms = None,
      is_locked = False, show_results = False, show_leaderboard = False\<rparr>"

text \<open>
  The time read off \<^verbatim>\<open>new Date(ends_at).getTime()\<close>: a null \<^verbatim>\<open>ends_at\<close> is the
  epoch.
\<close>

definition end_ms :: "SessionQuestionState \<Rightarrow> int" where
  "end_ms qs = (case ends_at qs of None \<Rightarrow> 0 | Some e \<Rightarrow> e)"

text \<open>
  \<^verbatim>\<open>pauseResume\<close> on the row the host holds: the update writes the listed columns
  and no other. Both readings of the clock in the resume branch are the one \<open>now\<close>.
  \<^verbatim>\<open>paused_remaining_ms\<close> is an \<^verbatim>\<open>int\<close> column: the store refuses the update of
  the pause branch when the remaining time does not fit it, the code does not look at the
  error, and the row stays as it was.
\<close>

definition pauseResume :: "int \<Rightarrow> int \<Rightarrow> SessionQuestionState \<Rightarrow> SessionQuestionState" where
  "pauseResume now timerSeconds qs =
     (if is_paused qs
      then
        let remainingMs = (case paused_remaining_ms qs of None \<Rightarrow> 0 | Some r \<Rightarrow> r);
            newEndsAt = now + remainingMs
        in qs\<lparr>is_paused := False, paused_remaining_ms := None,
               started_at := Some (now - (timerSeconds * 1000 - remainingMs)),
               ends_at := Some newEndsAt\<rparr>
      else
        let remaining = max 0 (end_ms qs - now)
        in case pg_int (Num (of_int remaining)) of
             Inl e \<Rightarrow> qs
           | Inr r \<Rightarrow> qs\<lparr>is_paused := True, paused_remaining_ms := Some r\<rparr>)"

definition endQuestionEarly :: "SessionQuestionState \<Rightarrow> SessionQuestionState" where
  "endQuestionEarly qs = qs\<lparr>is_locked := True, show_results := True\<rparr>"

definition showLeaderboard :: "SessionQuestionState \<Rightarrow> SessionQuestionState" where
  "showLeaderboard qs = qs\<lparr>show_leaderboard := True\<rparr>"

text \<open>
  The writes the application makes to a row of \<^verbatim>\<open>session_question_state\<close> after
  its insert, and a run of them.
\<close>

datatype host_write = PauseResume int int | EndQuestionEarly | ShowLeaderboard

fun host_step :: "host_write \<Rightarrow> SessionQuestionState \<Rightarrow> SessionQuestionState" where
  "host_step (PauseResume now timerSeconds) qs = pauseResume now timerSeconds qs"
| "host_step EndQuestionEarly qs = endQuestionEarly qs"
| "host_step ShowLeaderboard qs = showLeaderboard qs"

definition host_run :: "host_write list \<Rightarrow> SessionQuestionState \<Rightarrow> SessionQuestionState" where
  "host_run ws qs = fold host_step ws qs"

text \<open>
  What the clients show and score from a row: the time left on the timer, and the elapsed
  time \<^verbatim>\<open>handleAnswer\<close> computes.
\<close>

definition remaining_ms :: "int \<Rightarrow> SessionQuestionState \<Rightarrow> int" where
  "remaining_ms now qs = max 0 (end_ms qs - now)"

definition elapsed_ms :: "int \<Rightarrow> SessionQuestionState \<Rightarrow> int" where
  "elapsed_ms now qs = now - (case started_at qs of Some t \<Rightarrow> t | None \<Rightarrow> now)"

section \<open>The join code (\<^verbatim>\<open>src/lib/game-code.ts\<close>, \<^verbatim>\<open>handleStartSession\<close>)\<close>

definition CHARS :: string where
  "CHARS = ''ABCDEFGHJKLMNPQRSTUVWXYZ23456789''"

text \<open>
  \<open>random\<close> is the sequence of values \<^verbatim>\<open>Math.random()\<close> returns. An index outside
  the alphabet reads \<^verbatim>\<open>undefined\<close>, which the concatenation prints.
\<close>

definition pick_char :: "rat \<Rightarrow> string" where
  "pick_char r =
     (let i = \<lfloor>r * of_nat (length CHARS)\<rfloor>
      in if 0 \<le> i \<and> i < int (length CHARS) then [CHARS ! nat i] else ''undefined'')"

definition generateGameCode :: "nat \<Rightarrow> (nat \<Rightarrow> rat) \<Rightarrow> string" where
  "generateGameCode len random = concat (map (\<lambda>i. pick_char (random i)) [0..<len])"

text \<open>The code the call number \<open>k\<close> of \<^verbatim>\<open>generateGameCode()\<close> returns.\<close>

definition candidate :: "(nat \<Rightarrow> rat) \<Rightarrow> nat \<Rightarrow> string" where
  "candidate random k = generateGameCode 6 (\<lambda>i. random (6 * k + i))"

text \<open>The loop of \<^verbatim>\<open>handleStartSession\<close>, on its two variables.\<close>

function code_loop ::
  "(nat \<Rightarrow> rat) \<Rightarrow> Session list \<Rightarrow> string \<Rightarrow> nat \<Rightarrow> string \<times> nat" where
  "code_loop random ss c attempts =
     (if attempts < 5
      then (case maybeSingle (filter (\<lambda>s. code s = c \<and> status s \<noteq> finished) ss) of
              None \<Rightarrow> (c, attempts)
            | Some existing \<Rightarrow>
                code_loop random ss (candidate random (attempts + 1)) (attempts + 1))
      else (c, attempts))"
  by pat_completeness auto
termination
  by (relation "measure (\<lambda>(random, ss, c, attempts). 5 - attempts)") auto

declare code_loop.simps [simp del]

definition allocate_code :: "(nat \<Rightarrow> rat) \<Rightarrow> Session list \<Rightarrow> string \<times> nat" where
  "allocate_code random ss = code_loop random ss (candidate random 0) 0"

definition handleStartSession ::
  "(nat \<Rightarrow> rat) \<Rightarrow> uuid \<Rightarrow> Game option \<Rightarrow> nat \<Rightarrow> uuid option \<Rightarrow> database
     \<Rightarrow> ui_error + database" where
  "handleStartSession random new_id game questions_length user db =
     (case game of
        None \<Rightarrow> Inr db
      | Some g \<Rightarrow>
          if questions_length = 0 then Inr db
          else case user of
                 None \<Rightarrow> Inl (Msg ''Not authenticated'')
               | Some uid \<Rightarrow>
                   let c = fst (allocate_code random (sessions db))
                   in case insert_session db
                        \<lparr>s_id = new_id, game_id = g_id g, host_id = uid, code = c,
                         status = lobby, current_question_index = - 1,
                         timer_seconds = g_timer_seconds g, speed_bonus = g_speed_bonus g,
                         ended_at = None\<rparr> of
                        Inl e \<Rightarrow> Inl (Thrown e)
                      | Inr db' \<Rightarrow> Inr db')"

section \<open>Predicates of the specification\<close>

definition answers_unique :: "database \<Rightarrow> bool" where
  "answers_unique db = distinct (map answer_key (session_answers db))"

definition active_codes :: "Session list \<Rightarrow> string set" where
  "active_codes ss = set (map code (filter (\<lambda>s. status s \<noteq> finished) ss))"

definition active_codes_unique :: "Session list \<Rightarrow> bool" where
  "active_codes_unique ss = distinct (map code (filter (\<lambda>s. status s \<noteq> finished) ss))"

section \<open>Sample data\<close>

definition sample_session :: Session where
  "sample_session =
     \<lparr>s_id = 1, game_id = 7, host_id = 9, code = ''AB23CD'', status = playing,
      current_question_index = 0, timer_seconds = 30, speed_bonus = True, ended_at = None\<rparr>"

definition sample_player :: SessionPlayer where
  "sample_player =
     \<lparr>p_id = 4, p_session_id = 1, display_name = ''Alex'', avatar_color = ''#6366f1'',
      score = 0, is_removed = False\<rparr>"

definition sample_db :: database where
  "sample_db =
     \<lparr>sessions = [sample_session],
      session_players = [sample_player, sample_player\<lparr>p_id := 5, display_name := ''ALEX2''\<rparr>],
      session_answers = []\<rparr>"

definition sample_state :: SessionQuestionState where
  "sample_state = new_question_state 3 1 0 11 1000 30"

definition sample_page :: PlayerPage where
  "sample_page =
     \<lparr>phase = PhaseQuestion, session = Some sample_session, player = Some sample_player,
      players = [], questionState = Some sample_state,
      currentQuestion = Some \<lparr>gq_id = 11, game_question_choices =
        [\<lparr>c_id = 20, c_question_id = 11, c_is_correct = True\<rparr>,
         \<lparr>c_id = 21, c_question_id = 11, c_is_correct = False\<rparr>]\<rparr>,
      selectedChoiceId = None, displayName = '' Alex '', avatarColor = ''#ef4444'',
      error = Msg [], joinLoading = False, answerResult = None\<rparr>"

text \<open>
  A store while the session is still in the lobby. Beside the two players of the sample
  store it holds a removed player of the session and a player of another session, both
  named Alex3.
\<close>

definition sample_lobby_db :: database where
  "sample_lobby_db =
     \<lparr>sessions = [sample_session\<lparr>status := lobby\<rparr>,
                  sample_session\<lparr>s_id := 2, code := ''EF45GH'', status := lobby\<rparr>],
      session_players =
        [sample_player, sample_player\<lparr>p_id := 5, display_name := ''ALEX2''\<rparr>,
         sample_player\<lparr>p_id := 7, display_name := ''Alex3'', is_removed := True\<rparr>,
         sample_player\<lparr>p_id := 8, p_session_id := 2, display_name := ''alex3''\<rparr>],
      session_answers = []\<rparr>"

lemmas sample_defs =
  sample_session_def sample_player_def sample_db_def sample_state_def sample_page_def
  new_question_state_def

text \<open>The store after the sample player's first answer, 15 s into the question.\<close>

definition sample_answered_db :: database where
  "sample_answered_db = snd (handleAnswer 16000 20 (sample_page, sample_db))"

text \<open>Two generators and a game for the join code.\<close>

definition stuck_random :: "nat \<Rightarrow> rat" where
  "stuck_random i = [0, 1 / 32, 24 / 32, 25 / 32, 2 / 32, 3 / 32] ! (i mod 6)"

definition lucky_random :: "nat \<Rightarrow> rat" where
  "lucky_random i = (if i < 6 then stuck_random i else 31 / 32)"

definition sample_game :: Game where
  "sample_game = \<lparr>g_id = 7, g_timer_seconds = 30, g_speed_bonus = True\<rparr>"

section \<open>Rounding to a double\<close>

lemma rne_error: "\<bar>of_int (rne x) - x\<bar> \<le> 1 / 2"
proof -
  have "of_int \<lfloor>x\<rfloor> \<le> x" and "x < of_int \<lfloor>x\<rfloor> + 1"
    by linarith+
  then show ?thesis
    by (auto simp: rne_def Let_def)
qed

lemma rne_nearest:
  assumes "\<bar>x - of_int m\<bar> < 1 / 2"
  shows "rne x = m"
proof -
  from rne_error [of x] assms have "\<bar>(of_int (rne x) :: rat) - of_int m\<bar> < 1"
    by linarith
  then have "\<bar>(of_int (rne x - m) :: rat)\<bar> < of_int 1"
    by simp
  then have "\<bar>rne x - m\<bar> < 1"
    by (simp only: of_int_abs [symmetric] of_int_less_iff)
  then show ?thesis
    by simp
qed

lemma rne_of_int: "rne (of_int k) = k"
  by (rule rne_nearest) simp


lemma ilog2_lower:
  assumes "0 < a"
  shows "2 powi (ilog2 a) \<le> a"
proof (cases "1 \<le> a")
  case True
  define n where "n = nat \<lfloor>a\<rfloor>"
  from True have n: "0 < n" and na: "of_nat n \<le> a"
    by (simp_all add: n_def)
  from floorlog_bounds [of n 2] n have "2 ^ (floorlog 2 n - 1) \<le> n"
    by simp
  then have "(2::rat) ^ (floorlog 2 n - 1) \<le> of_nat n"
    by (metis of_nat_le_iff of_nat_numeral of_nat_power)
  with na have le: "(2::rat) ^ (floorlog 2 n - 1) \<le> a"
    by linarith
  from n have "1 \<le> floorlog 2 n"
    by (simp add: floorlog_def)
  then have "ilog2 a = int (floorlog 2 n - 1)"
    using True by (simp add: ilog2_def n_def)
  then show ?thesis
    using le by (simp only: power_int_of_nat)
next
  case False
  define M where "M = nat \<lceil>1 / a\<rceil> - 1"
  define L where "L = floorlog 2 M"
  from False assms have y: "1 < 1 / a"
    by simp
  then have c: "2 \<le> \<lceil>1 / a\<rceil>"
    by linarith
  then have M: "0 < M" and Mc: "int M = \<lceil>1 / a\<rceil> - 1"
    unfolding M_def by linarith+
  from floorlog_bounds [of M 2] M have "M < 2 ^ L"
    by (simp add: L_def)
  then have "int M + 1 \<le> 2 ^ L"
    by (metis Suc_leI of_nat_Suc of_nat_le_iff of_nat_numeral of_nat_power add.commute of_nat_1 of_nat_add)
  with Mc have "\<lceil>1 / a\<rceil> \<le> 2 ^ L"
    by simp
  then have "1 / a \<le> 2 ^ L"
    by (simp add: ceiling_le_iff)
  with assms have "1 / 2 ^ L \<le> a"
    by (simp add: field_simps)
  moreover from False have "ilog2 a = - int L"
    by (simp add: ilog2_def L_def M_def)
  ultimately show ?thesis
    by (simp add: power_int_minus_divide)
qed

lemma ilog2_upper:
  assumes "0 < a"
  shows "a < 2 powi (ilog2 a + 1)"
proof (cases "1 \<le> a")
  case True
  define n where "n = nat \<lfloor>a\<rfloor>"
  define L where "L = floorlog 2 n"
  from True have n: "0 < n" and na: "a < of_nat n + 1"
    unfolding n_def by linarith+
  from floorlog_bounds [of n 2] n have "n < 2 ^ L"
    by (simp add: L_def)
  then have "n + 1 \<le> 2 ^ L"
    by simp
  then have "(of_nat (n + 1) :: rat) \<le> of_nat (2 ^ L)"
    by (simp only: of_nat_le_iff)
  with na have "a < 2 ^ L"
    by simp
  moreover from n have "1 \<le> L"
    by (simp add: L_def floorlog_def)
  then have "ilog2 a + 1 = int L"
    using True by (simp add: ilog2_def n_def L_def)
  ultimately show ?thesis
    by (simp only: power_int_of_nat)
next
  case False
  define M where "M = nat \<lceil>1 / a\<rceil> - 1"
  define L where "L = floorlog 2 M"
  from False assms have y: "1 < 1 / a"
    by simp
  then have c: "2 \<le> \<lceil>1 / a\<rceil>"
    by linarith
  then have M: "0 < M" and Mc: "int M = \<lceil>1 / a\<rceil> - 1"
    unfolding M_def by linarith+
  from M have L: "1 \<le> L"
    by (simp add: L_def floorlog_def)
  from floorlog_bounds [of M 2] M have "2 ^ (L - 1) \<le> M"
    by (simp add: L_def)
  then have "(of_nat (2 ^ (L - 1)) :: rat) \<le> of_nat M"
    by (simp only: of_nat_le_iff)
  moreover have "(of_nat M :: rat) = of_int (\<lceil>1 / a\<rceil> - 1)"
    using Mc by (metis of_int_of_nat_eq)
  moreover have "of_int (\<lceil>1 / a\<rceil> - 1) < 1 / a"
    by linarith
  ultimately have "2 ^ (L - 1) < 1 / a"
    by simp
  with assms have "a < 1 / 2 ^ (L - 1)"
    by (simp add: field_simps)
  moreover from False have "ilog2 a = - int L"
    by (simp add: ilog2_def L_def M_def)
  with L have "ilog2 a + 1 = - int (L - 1)"
    by simp
  ultimately show ?thesis
    by (simp add: power_int_minus_divide)
qed

lemma ilog2_ge: "1 \<le> a \<Longrightarrow> - 1 \<le> ilog2 a"
  by (simp add: ilog2_def)


text \<open>A result of moderate size: finite, of the sign of the exact value, and close to it.\<close>

lemma overflow_threshold_big: "2 ^ 62 < overflow_threshold"
  unfolding overflow_threshold_def by (rule power_strict_increasing) simp_all


text \<open>An integer below \<open>2 ^ 53\<close> in magnitude is a double.\<close>

lemma round_magnitude_int:
  assumes "0 < n" and "n < 2 ^ 53"
  shows "round_magnitude (of_int n) = of_int n"
proof -
  define a :: rat where "a = of_int n"
  define e where "e = ilog2 a"
  from assms(1) have a: "0 < a" "1 \<le> a"
    by (simp_all add: a_def)
  from assms(2) have "(of_int n :: rat) < of_int (2 ^ 53)"
    by (simp only: of_int_less_iff)
  then have a53: "a < 2 powi 53"
    by (simp add: a_def)
  from ilog2_lower [OF a(1)] a53 have "(2::rat) powi e < 2 powi 53"
    unfolding e_def by linarith
  then have "e < 53"
    by (intro power_int_le_imp_less_exp [of "2::rat"]) simp_all
  moreover from ilog2_ge [OF a(2)] have "- 1 \<le> e"
    by (simp add: e_def)
  ultimately have p: "max (e - 52) least_exponent = e - 52" and k: "0 \<le> 52 - e"
    by (simp_all add: least_exponent_def)
  have "a / 2 powi (e - 52) = a * 2 powi (52 - e)"
    by (simp add: power_int_diff field_simps)
  also have "\<dots> = of_int (n * 2 ^ nat (52 - e))"
    using k by (simp add: a_def power_int_nonneg_exp)
  finally have "rne (a / 2 powi (e - 52)) = n * 2 ^ nat (52 - e)"
    by (simp only: rne_of_int)
  then have "round_magnitude a = of_int (n * 2 ^ nat (52 - e)) * 2 powi (e - 52)"
    by (simp add: round_magnitude_def Let_def p flip: e_def)
  also have "\<dots> = a * (2 powi (52 - e) * 2 powi (e - 52))"
    using k by (simp add: a_def power_int_nonneg_exp)
  also have "(2::rat) powi (52 - e) * 2 powi (e - 52) = 1"
    by (simp flip: power_int_add)
  finally show ?thesis
    by (simp add: a_def)
qed

lemma round_double_int:
  assumes "\<bar>n\<bar> < 2 ^ 53"
  shows "round_double (of_int n) = Num (of_int n)"
proof (cases "n = 0")
  case True
  then show ?thesis
    by (simp add: round_double_def)
next
  case False
  with assms have "round_magnitude (of_int \<bar>n\<bar>) = of_int \<bar>n\<bar>"
    by (intro round_magnitude_int) simp_all
  moreover have "(of_int \<bar>n\<bar> :: rat) < overflow_threshold"
  proof -
    from assms have "(of_int \<bar>n\<bar> :: rat) < of_int (2 ^ 53)"
      by (simp only: of_int_less_iff)
    then have "(of_int \<bar>n\<bar> :: rat) < 2 ^ 53"
      by simp
    also have "\<dots> < (2::rat) ^ 62"
      by simp
    finally show ?thesis
      using overflow_threshold_big by linarith
  qed
  ultimately show ?thesis
    using False by (simp add: round_double_def Let_def abs_if split: if_splits)
qed

text \<open>The rounding of a concrete value, from its exponent and its rounded significand.\<close>

lemma round_double_normal:
  assumes "0 < a" and "ilog2 a = e" and "- 1022 \<le> e"
    and "rne (a / 2 powi (e - 52)) = m"
    and "of_int m * 2 powi (e - 52) \<le> (2::rat) ^ 62"
  shows "round_double a = Num (of_int m * 2 powi (e - 52))"
proof -
  from assms(2,3) have "max (ilog2 a - 52) least_exponent = e - 52"
    by (simp add: least_exponent_def)
  with assms(4) have "round_magnitude a = of_int m * 2 powi (e - 52)"
    by (simp add: round_magnitude_def Let_def)
  moreover from assms(5) overflow_threshold_big
  have "\<not> overflow_threshold \<le> of_int m * 2 powi (e - 52)"
    by linarith
  ultimately show ?thesis
    using assms(1) by (simp add: round_double_def Let_def)
qed

lemma round_double_numeral:
  "numeral k < (2::int) ^ 53 \<Longrightarrow> round_double (numeral k) = Num (numeral k)"
  using round_double_int [of "numeral k"] by simp

lemma round_double_neg_numeral:
  "numeral k < (2::int) ^ 53 \<Longrightarrow> round_double (- numeral k) = Num (- numeral k)"
  using round_double_int [of "- numeral k"] by simp

lemma round_double_0: "round_double 0 = Num 0"
  by (simp add: round_double_def)

lemma round_double_1: "round_double 1 = Num 1"
  using round_double_int [of 1] by simp

lemma round_double_neg_1: "round_double (- 1) = Num (- 1)"
  using round_double_int [of "- 1"] by simp

lemmas double_ints = round_double_numeral round_double_neg_numeral round_double_0
  round_double_1 round_double_neg_1





lemma ilog2_half: "ilog2 (1 / 2) = - 1"
  by code_simp




lemma round_double_half: "round_double (1 / 2) = Num (1 / 2)"
proof -
  have "rne (1 / 2 / 2 powi (- 1 - 52)) = 4503599627370496"
    by (rule rne_nearest) simp
  from round_double_normal [OF _ ilog2_half _ this] show ?thesis
    by simp
qed

section \<open>Properties of the scoring function\<close>

lemmas scoring_defs =
  calculatePoints_def handleAnswer_points_def BASE_POINTS_def MAX_SPEED_BONUS_def js_sub_def


lemma award_15000:
  "js_add (Num 1000)
     (js_round (js_mul (Num 500)
        (js_max (Num 0) (js_sub (Num 1) (js_div (Num 15000) (js_mul (Num 30) (Num 1000)))))))
     = Num 1250"
proof -
  have a1: "js_mul (Num 30) (Num 1000) = Num 30000"
    by (simp add: double_ints)
  have a2: "js_div (Num 15000) (Num 30000) = Num (1 / 2)"
    by (simp add: round_double_half)
  have a3: "js_sub (Num 1) (Num (1 / 2)) = Num (1 / 2)"
    by (simp add: js_sub_def round_double_half)
  have a4: "js_max (Num 0) (Num (1 / 2)) = Num (1 / 2)"
    by simp
  have a5: "js_mul (Num 500) (Num (1 / 2)) = Num 250"
    by (simp add: double_ints)
  have "\<lfloor>(250 + 1 / 2 :: rat)\<rfloor> = 250"
    by (rule floor_unique) simp_all
  then have a6: "js_round (Num 250) = Num 250"
    by simp
  have a7: "js_add (Num 1000) (Num 250) = Num 1250"
    by (simp add: double_ints)
  show ?thesis
    by (simp only: a1 a2 a3 a4 a5 a6 a7)
qed


lemma handleAnswer_points_15000:
  "handleAnswer_points True (Num 15000) (Num 30) True = Num 1250"
  unfolding handleAnswer_points_def Let_def
  by (simp only: award_15000 if_True)














text \<open>
  C9. The bonus is clamped from below only. An elapsed time below zero (the start time is
  stamped by the host's clock, the submission by the player's) gives a fraction above 1:
  at -30000 ms of a 30 s timer the bonus is 1000 and the award 2000, above the 1500 the
  cap of 500 allows.
\<close>

theorem calculatePoints_exceeds_cap:
  "calculatePoints True (Num (- 30000)) (Num 30) True = Num 2000"
proof -
  have a1: "js_mul (Num 30) (Num 1000) = Num 30000"
    by (simp add: double_ints)
  have a2: "js_div (Num (- 30000)) (Num 30000) = Num (- 1)"
    by (simp add: double_ints)
  have a3: "js_sub (Num 1) (Num (- 1)) = Num 2"
    by (simp add: js_sub_def double_ints)
  have a4: "js_max (Num 0) (Num 2) = Num 2"
    by simp
  have a5: "js_mul (Num 500) (Num 2) = Num 1000"
    by (simp add: double_ints)
  have "\<lfloor>(1000 + 1 / 2 :: rat)\<rfloor> = 1000"
    by (rule floor_unique) simp_all
  then have a6: "js_round (Num 1000) = Num 1000"
    by simp
  have a7: "js_add (Num 1000) (Num 1000) = Num 2000"
    by (simp add: double_ints)
  show ?thesis
    unfolding calculatePoints_def BASE_POINTS_def MAX_SPEED_BONUS_def Let_def
    by (simp only: a1 a2 a3 a4 a5 a6 a7 if_True if_False not_True_eq_False)
qed

text \<open>
  C10. The computation written out in the player page's answer submission is the
  standalone scoring function, for every input.
\<close>

theorem handleAnswer_points_eq_calculatePoints:
  "handleAnswer_points isCorrect timeMs timerSeconds speedBonusEnabled
     = calculatePoints isCorrect timeMs timerSeconds speedBonusEnabled"
  by (simp add: scoring_defs Let_def)

section \<open>Decimal suffixes\<close>

lemma digit_char_inj: "a < 10 \<Longrightarrow> b < 10 \<Longrightarrow> digit_char a = digit_char b \<Longrightarrow> a = b"
  by (simp add: digit_char_def char_of_eq_iff take_bit_eq_mod)

lemma string_of_nat_nonempty: "string_of_nat n \<noteq> []"
  by (subst string_of_nat.simps) simp

lemma string_of_nat_inj: "string_of_nat m = string_of_nat n \<Longrightarrow> m = n"
proof (induction m arbitrary: n rule: string_of_nat.induct)
  case (1 m)
  show ?case
  proof (cases "m < 10")
    case True
    note m = this
    show ?thesis
    proof (cases "n < 10")
      case True
      with m "1.prems" show ?thesis
        by (simp add: string_of_nat.simps [of m] string_of_nat.simps [of n] digit_char_inj)
    next
      case False
      with m "1.prems" show ?thesis
        by (simp add: string_of_nat.simps [of m] string_of_nat.simps [of n]
            string_of_nat_nonempty [symmetric])
    qed
  next
    case False
    note m = this
    show ?thesis
    proof (cases "n < 10")
      case True
      with m "1.prems" show ?thesis
        by (simp add: string_of_nat.simps [of m] string_of_nat.simps [of n]
            string_of_nat_nonempty)
    next
      case False
      with m "1.prems" have eq: "string_of_nat (m div 10) = string_of_nat (n div 10)"
        and d: "digit_char (m mod 10) = digit_char (n mod 10)"
        by (simp_all add: string_of_nat.simps [of m] string_of_nat.simps [of n])
      from "1.IH" [OF m eq] have "m div 10 = n div 10" .
      moreover from d have "m mod 10 = n mod 10"
        by (intro digit_char_inj) simp_all
      ultimately show ?thesis
        by (metis div_mult_mod_eq)
    qed
  qed
qed

text \<open>The case mapping of ASCII strings leaves a decimal suffix alone.\<close>

lemma lower_char_digit: "d < 10 \<Longrightarrow> lower_char (digit_char d) = digit_char d"
  by (simp add: lower_char_def digit_char_def Let_def take_bit_eq_mod)

lemma lower_char_string_of_nat: "map lower_char (string_of_nat n) = string_of_nat n"
proof (induction n rule: string_of_nat.induct)
  case (1 n)
  show ?case
  proof (cases "n < 10")
    case True
    then show ?thesis
      by (subst (1 2) string_of_nat.simps) (simp add: lower_char_digit)
  next
    case False
    with "1.IH" have "map lower_char (string_of_nat (n div 10)) = string_of_nat (n div 10)"
      by simp
    with False show ?thesis
      by (subst (1 2) string_of_nat.simps) (simp add: lower_char_digit)
  qed
qed

lemma ascii_strings_keeps_suffix: "lower_keeps_suffix ascii_strings"
  by (simp add: lower_keeps_suffix_def ascii_strings_def lower_char_string_of_nat)

section \<open>The suffix loop terminates and finds the least free counter\<close>

lemma finite_taken: "finite {k. c \<le> k \<and> l @ string_of_nat k \<in> set names}"
proof -
  have "inj (\<lambda>k. l @ string_of_nat k)"
    by (rule injI) (simp add: string_of_nat_inj)
  then have "finite ((\<lambda>k. l @ string_of_nat k) -` set names)"
    by (intro finite_vimageI) simp_all
  moreover have "{k. c \<le> k \<and> l @ string_of_nat k \<in> set names}
      \<subseteq> (\<lambda>k. l @ string_of_nat k) -` set names"
    by auto
  ultimately show ?thesis
    by (rule rev_finite_subset)
qed

termination name_counter
proof (relation "measure (\<lambda>(names, l, c). card {k. c \<le> k \<and> l @ string_of_nat k \<in> set names})")
  show "wf (measure (\<lambda>(names, l, c). card {k. c \<le> k \<and> l @ string_of_nat k \<in> set names}))"
    by simp
next
  fix names :: "string list" and lowered :: string and counter :: nat
  assume taken: "lowered @ string_of_nat counter \<in> set names"
  have "{k. counter + 1 \<le> k \<and> lowered @ string_of_nat k \<in> set names}
      \<subset> {k. counter \<le> k \<and> lowered @ string_of_nat k \<in> set names}"
  proof
    show "{k. counter + 1 \<le> k \<and> lowered @ string_of_nat k \<in> set names}
        \<subseteq> {k. counter \<le> k \<and> lowered @ string_of_nat k \<in> set names}"
      by auto
    have "counter \<in> {k. counter \<le> k \<and> lowered @ string_of_nat k \<in> set names}"
      using taken by simp
    moreover have "counter \<notin> {k. counter + 1 \<le> k \<and> lowered @ string_of_nat k \<in> set names}"
      by simp
    ultimately show "{k. counter + 1 \<le> k \<and> lowered @ string_of_nat k \<in> set names}
        \<noteq> {k. counter \<le> k \<and> lowered @ string_of_nat k \<in> set names}"
      by blast
  qed
  then have "card {k. counter + 1 \<le> k \<and> lowered @ string_of_nat k \<in> set names}
      < card {k. counter \<le> k \<and> lowered @ string_of_nat k \<in> set names}"
    by (intro psubset_card_mono finite_taken)
  then show "((names, lowered, counter + 1), (names, lowered, counter))
      \<in> measure (\<lambda>(names, l, c). card {k. c \<le> k \<and> l @ string_of_nat k \<in> set names})"
    by simp
qed

declare name_counter.simps [simp del]

lemma name_counter_least:
  "c \<le> name_counter names l c
   \<and> l @ string_of_nat (name_counter names l c) \<notin> set names
   \<and> (\<forall>j. c \<le> j \<and> j < name_counter names l c \<longrightarrow> l @ string_of_nat j \<in> set names)"
proof (induction names l c rule: name_counter.induct)
  case (1 names l c)
  show ?case
  proof (cases "l @ string_of_nat c \<in> set names")
    case True
    then have unfold: "name_counter names l c = name_counter names l (c + 1)"
      by (subst name_counter.simps) simp
    from "1.IH" [OF True]
    have ge: "c + 1 \<le> name_counter names l (c + 1)"
      and free: "l @ string_of_nat (name_counter names l (c + 1)) \<notin> set names"
      and below: "\<And>j. c + 1 \<le> j \<Longrightarrow> j < name_counter names l (c + 1)
                    \<Longrightarrow> l @ string_of_nat j \<in> set names"
      by blast+
    have "l @ string_of_nat j \<in> set names"
      if "c \<le> j" and "j < name_counter names l (c + 1)" for j
    proof (cases "j = c")
      case True
      with \<open>l @ string_of_nat c \<in> set names\<close> show ?thesis by simp
    next
      case False
      with that have "c + 1 \<le> j" by simp
      with that show ?thesis by (intro below)
    qed
    with ge free show ?thesis
      unfolding unfold by auto
  next
    case False
    then show ?thesis
      by (subst (1 2 3) name_counter.simps) auto
  qed
qed

section \<open>Joining\<close>

text \<open>The lower-cased names the loop checks against are those of the session's roster.\<close>

lemma roster_names:
  "l \<in> set (map (toLowerCase js) (existing_names db sid))
     \<longleftrightarrow> (\<exists>p \<in> set (session_players db). p_session_id p = sid \<and> \<not> is_removed p
            \<and> toLowerCase js (display_name p) = l)"
  by (auto simp: existing_names_def)

lemma final_name_collision:
  assumes "toLowerCase js (trim js requested) \<in> set (map (toLowerCase js) existing)"
  shows "\<exists>k\<ge>2. final_name js existing requested = trim js requested @ string_of_nat k
           \<and> toLowerCase js (trim js requested) @ string_of_nat k
                 \<notin> set (map (toLowerCase js) existing)
           \<and> (\<forall>j. 2 \<le> j \<and> j < k
                 \<longrightarrow> toLowerCase js (trim js requested) @ string_of_nat j
                       \<in> set (map (toLowerCase js) existing))"
proof -
  let ?names = "map (toLowerCase js) existing"
  let ?l = "toLowerCase js (trim js requested)"
  let ?k = "name_counter ?names ?l 2"
  from name_counter_least [of 2 ?names ?l]
  have ge: "2 \<le> ?k" and free: "?l @ string_of_nat ?k \<notin> set ?names"
    and below: "\<forall>j. 2 \<le> j \<and> j < ?k \<longrightarrow> ?l @ string_of_nat j \<in> set ?names"
    by blast+
  from assms have eq: "final_name js existing requested = trim js requested @ string_of_nat ?k"
    by (simp add: final_name_def Let_def)
  from ge eq free below show ?thesis
    by blast
qed

lemma final_name_free:
  assumes "toLowerCase js (trim js requested) \<notin> set (map (toLowerCase js) existing)"
  shows "final_name js existing requested = trim js requested"
  using assms by (simp add: final_name_def Let_def)

lemma handleJoin_inserts_final_name:
  assumes "session page = Some sess" and "trim js (displayName page) \<noteq> []"
    and "\<exists>s \<in> set (sessions db). s_id s = s_id sess \<and> status s = lobby"
  shows "session_players (snd (handleJoin js new_id (page, db)))
     = session_players db @
         [\<lparr>p_id = new_id, p_session_id = s_id sess,
           display_name = final_name js (existing_names db (s_id sess)) (displayName page),
           avatar_color = avatarColor page, score = 0, is_removed = False\<rparr>]"
  using assms by (simp add: handleJoin_def insert_session_player_def Let_def)

text \<open>
  A join whose name collides with the name of a player of the session who is not removed.
\<close>

lemma handleJoin_collision:
  assumes sess: "session page = Some sess" and name: "trim js (displayName page) \<noteq> []"
    and open_lobby: "\<exists>s \<in> set (sessions db). s_id s = s_id sess \<and> status s = lobby"
    and collides: "\<exists>p \<in> set (session_players db). p_session_id p = s_id sess \<and> \<not> is_removed p
        \<and> toLowerCase js (display_name p) = toLowerCase js (trim js (displayName page))"
  shows "\<exists>k\<ge>2.
      session_players (snd (handleJoin js new_id (page, db)))
        = session_players db @
            [\<lparr>p_id = new_id, p_session_id = s_id sess,
              display_name = trim js (displayName page) @ string_of_nat k,
              avatar_color = avatarColor page, score = 0, is_removed = False\<rparr>]
      \<and> (\<forall>p \<in> set (session_players db). p_session_id p = s_id sess \<and> \<not> is_removed p \<longrightarrow>
            toLowerCase js (display_name p)
              \<noteq> toLowerCase js (trim js (displayName page)) @ string_of_nat k)
      \<and> (\<forall>j. 2 \<le> j \<and> j < k \<longrightarrow>
            (\<exists>p \<in> set (session_players db). p_session_id p = s_id sess \<and> \<not> is_removed p
               \<and> toLowerCase js (display_name p)
                     = toLowerCase js (trim js (displayName page)) @ string_of_nat j))"
proof -
  let ?existing = "existing_names db (s_id sess)"
  let ?l = "toLowerCase js (trim js (displayName page))"
  from collides have "?l \<in> set (map (toLowerCase js) ?existing)"
    by (simp only: roster_names)
  from final_name_collision [OF this] obtain k
    where k: "2 \<le> k"
      and eq: "final_name js ?existing (displayName page)
                 = trim js (displayName page) @ string_of_nat k"
      and free: "?l @ string_of_nat k \<notin> set (map (toLowerCase js) ?existing)"
      and below: "\<forall>j. 2 \<le> j \<and> j < k
                    \<longrightarrow> ?l @ string_of_nat j \<in> set (map (toLowerCase js) ?existing)"
    by blast
  have ins: "session_players (snd (handleJoin js new_id (page, db)))
        = session_players db @
            [\<lparr>p_id = new_id, p_session_id = s_id sess,
              display_name = trim js (displayName page) @ string_of_nat k,
              avatar_color = avatarColor page, score = 0, is_removed = False\<rparr>]"
    using handleJoin_inserts_final_name [OF sess name open_lobby, of new_id] by (simp only: eq)
  from free have fresh: "\<forall>p \<in> set (session_players db).
      p_session_id p = s_id sess \<and> \<not> is_removed p \<longrightarrow>
        toLowerCase js (display_name p) \<noteq> ?l @ string_of_nat k"
    unfolding roster_names by blast
  from below have least: "\<forall>j. 2 \<le> j \<and> j < k \<longrightarrow>
      (\<exists>p \<in> set (session_players db). p_session_id p = s_id sess \<and> \<not> is_removed p
         \<and> toLowerCase js (display_name p) = ?l @ string_of_nat j)"
    unfolding roster_names .
  from k ins fresh least show ?thesis
    by blast
qed

lemma handleJoin_no_collision:
  assumes sess: "session page = Some sess" and name: "trim js (displayName page) \<noteq> []"
    and open_lobby: "\<exists>s \<in> set (sessions db). s_id s = s_id sess \<and> status s = lobby"
    and free: "\<forall>p \<in> set (session_players db). p_session_id p = s_id sess \<and> \<not> is_removed p \<longrightarrow>
        toLowerCase js (display_name p) \<noteq> toLowerCase js (trim js (displayName page))"
  shows "session_players (snd (handleJoin js new_id (page, db)))
        = session_players db @
            [\<lparr>p_id = new_id, p_session_id = s_id sess,
              display_name = trim js (displayName page),
              avatar_color = avatarColor page, score = 0, is_removed = False\<rparr>]"
proof -
  from free have "toLowerCase js (trim js (displayName page))
      \<notin> set (map (toLowerCase js) (existing_names db (s_id sess)))"
    unfolding roster_names by blast
  from final_name_free [OF this] handleJoin_inserts_final_name [OF sess name open_lobby, of new_id]
  show ?thesis
    by simp
qed

lemma insert_session_player_rejected:
  assumes "\<forall>s \<in> set (sessions db). s_id s = p_session_id row \<longrightarrow> status s \<noteq> lobby"
  shows "insert_session_player db row = Inl RowLevelSecurity"
  using assms by (auto simp: insert_session_player_def)

lemma handleJoin_rejected:
  assumes "session page = Some sess"
    and "\<forall>s \<in> set (sessions db). s_id s = s_id sess \<longrightarrow> status s \<noteq> lobby"
  shows "snd (handleJoin js new_id (page, db)) = db
    \<and> player (fst (handleJoin js new_id (page, db))) = player page
    \<and> phase (fst (handleJoin js new_id (page, db))) = phase page
    \<and> error (fst (handleJoin js new_id (page, db))) \<noteq> Msg []"
proof -
  let ?row = "\<lparr>p_id = new_id, p_session_id = s_id sess,
           display_name = final_name js (existing_names db (s_id sess)) (displayName page),
           avatar_color = avatarColor page, score = 0, is_removed = False\<rparr>"
  from assms(2) have rej: "insert_session_player db ?row = Inl RowLevelSecurity"
    by (intro insert_session_player_rejected) simp
  show ?thesis
    using assms(1) rej by (simp add: handleJoin_def Let_def)
qed

lemma handleJoin_no_session:
  assumes "session page = None"
  shows "snd (handleJoin js new_id (page, db)) = db"
  using assms by (simp add: handleJoin_def)

lemma findSession_finished:
  assumes "\<forall>s \<in> set (sessions db). code s = toUpperCase js sessionCode \<longrightarrow> status s = finished"
  shows "findSession js sessionCode stored db page
           = page\<lparr>error := Msg ''Game not found. Check the code and try again.'',
                  phase := PhaseError\<rparr>"
proof -
  from assms have
    "filter (\<lambda>s. code s = toUpperCase js sessionCode \<and> status s \<noteq> finished) (sessions db) = []"
    by (auto simp: filter_empty_conv)
  then show ?thesis
    by (simp add: findSession_def maybeSingle_def)
qed

section \<open>Names on the roster and the lobby gate\<close>

text \<open>
  C8. In a join to a session in the lobby whose trimmed requested name collides, ignoring
  case, with the name of a player of that session who is not removed, the row inserted
  carries the trimmed requested name followed by a counter \<open>k\<close> from 2 on. No such player
  has the lower-cased requested name followed by \<open>k\<close> as lower-cased name, every counter
  from 2 below \<open>k\<close> is taken by such a player, and, where the case mapping leaves a
  decimal suffix alone, the name assigned collides with no such player's, ignoring case.
  A name that does not collide is inserted as trimmed. Removed players and players of
  other sessions do not count: joining as Alex where Alex and ALEX2 are on the roster, a
  removed player is named Alex3 and so is a player of another session, gives Alex3.
\<close>

theorem handleJoin_smallest_suffix:
  "(session page = Some sess \<and> trim js (displayName page) \<noteq> []
      \<and> (\<exists>s \<in> set (sessions db). s_id s = s_id sess \<and> status s = lobby)
      \<and> (\<exists>p \<in> set (session_players db). p_session_id p = s_id sess \<and> \<not> is_removed p
            \<and> toLowerCase js (display_name p) = toLowerCase js (trim js (displayName page)))
    \<longrightarrow>
      (\<exists>k\<ge>2.
          session_players (snd (handleJoin js new_id (page, db)))
            = session_players db @
                [\<lparr>p_id = new_id, p_session_id = s_id sess,
                  display_name = trim js (displayName page) @ string_of_nat k,
                  avatar_color = avatarColor page, score = 0, is_removed = False\<rparr>]
          \<and> (\<forall>p \<in> set (session_players db). p_session_id p = s_id sess \<and> \<not> is_removed p \<longrightarrow>
                toLowerCase js (display_name p)
                  \<noteq> toLowerCase js (trim js (displayName page)) @ string_of_nat k)
          \<and> (\<forall>j. 2 \<le> j \<and> j < k \<longrightarrow>
                (\<exists>p \<in> set (session_players db). p_session_id p = s_id sess \<and> \<not> is_removed p
                   \<and> toLowerCase js (display_name p)
                         = toLowerCase js (trim js (displayName page)) @ string_of_nat j))
          \<and> (lower_keeps_suffix js \<longrightarrow>
                (\<forall>p \<in> set (session_players db). p_session_id p = s_id sess \<and> \<not> is_removed p \<longrightarrow>
                   toLowerCase js (display_name p)
                     \<noteq> toLowerCase js (trim js (displayName page) @ string_of_nat k)))))
   \<and> (session page = Some sess \<and> trim js (displayName page) \<noteq> []
        \<and> (\<exists>s \<in> set (sessions db). s_id s = s_id sess \<and> status s = lobby)
        \<and> (\<forall>p \<in> set (session_players db). p_session_id p = s_id sess \<and> \<not> is_removed p \<longrightarrow>
              toLowerCase js (display_name p) \<noteq> toLowerCase js (trim js (displayName page)))
      \<longrightarrow>
        session_players (snd (handleJoin js new_id (page, db)))
          = session_players db @
              [\<lparr>p_id = new_id, p_session_id = s_id sess,
                display_name = trim js (displayName page),
                avatar_color = avatarColor page, score = 0, is_removed = False\<rparr>])
   \<and> map display_name (session_players (snd (handleJoin ascii_strings 6
          (sample_page, sample_lobby_db))))
       = [''Alex'', ''ALEX2'', ''Alex3'', ''alex3'', ''Alex3'']"
proof (intro conjI impI)
  assume a: "session page = Some sess \<and> trim js (displayName page) \<noteq> []
      \<and> (\<exists>s \<in> set (sessions db). s_id s = s_id sess \<and> status s = lobby)
      \<and> (\<exists>p \<in> set (session_players db). p_session_id p = s_id sess \<and> \<not> is_removed p
            \<and> toLowerCase js (display_name p) = toLowerCase js (trim js (displayName page)))"
  then have sess: "session page = Some sess" and name: "trim js (displayName page) \<noteq> []"
    and open_lobby: "\<exists>s \<in> set (sessions db). s_id s = s_id sess \<and> status s = lobby"
    and collides: "\<exists>p \<in> set (session_players db). p_session_id p = s_id sess \<and> \<not> is_removed p
        \<and> toLowerCase js (display_name p) = toLowerCase js (trim js (displayName page))"
    by simp_all
  from handleJoin_collision [OF sess name open_lobby collides, of new_id] obtain k
    where k: "2 \<le> k"
      and ins: "session_players (snd (handleJoin js new_id (page, db)))
            = session_players db @
                [\<lparr>p_id = new_id, p_session_id = s_id sess,
                  display_name = trim js (displayName page) @ string_of_nat k,
                  avatar_color = avatarColor page, score = 0, is_removed = False\<rparr>]"
      and fresh: "\<forall>p \<in> set (session_players db). p_session_id p = s_id sess \<and> \<not> is_removed p \<longrightarrow>
                toLowerCase js (display_name p)
                  \<noteq> toLowerCase js (trim js (displayName page)) @ string_of_nat k"
      and least: "\<forall>j. 2 \<le> j \<and> j < k \<longrightarrow>
                (\<exists>p \<in> set (session_players db). p_session_id p = s_id sess \<and> \<not> is_removed p
                   \<and> toLowerCase js (display_name p)
                         = toLowerCase js (trim js (displayName page)) @ string_of_nat j)"
    by blast
  have unique: "lower_keeps_suffix js \<longrightarrow>
      (\<forall>p \<in> set (session_players db). p_session_id p = s_id sess \<and> \<not> is_removed p \<longrightarrow>
         toLowerCase js (display_name p)
           \<noteq> toLowerCase js (trim js (displayName page) @ string_of_nat k))"
    using fresh by (simp add: lower_keeps_suffix_def)
  from k ins fresh least unique
  show "\<exists>k\<ge>2.
          session_players (snd (handleJoin js new_id (page, db)))
            = session_players db @
                [\<lparr>p_id = new_id, p_session_id = s_id sess,
                  display_name = trim js (displayName page) @ string_of_nat k,
                  avatar_color = avatarColor page, score = 0, is_removed = False\<rparr>]
          \<and> (\<forall>p \<in> set (session_players db). p_session_id p = s_id sess \<and> \<not> is_removed p \<longrightarrow>
                toLowerCase js (display_name p)
                  \<noteq> toLowerCase js (trim js (displayName page)) @ string_of_nat k)
          \<and> (\<forall>j. 2 \<le> j \<and> j < k \<longrightarrow>
                (\<exists>p \<in> set (session_players db). p_session_id p = s_id sess \<and> \<not> is_removed p
                   \<and> toLowerCase js (display_name p)
                         = toLowerCase js (trim js (displayName page)) @ string_of_nat j))
          \<and> (lower_keeps_suffix js \<longrightarrow>
                (\<forall>p \<in> set (session_players db). p_session_id p = s_id sess \<and> \<not> is_removed p \<longrightarrow>
                   toLowerCase js (display_name p)
                     \<noteq> toLowerCase js (trim js (displayName page) @ string_of_nat k)))"
    by (intro exI [of _ k] conjI)
next
  assume a: "session page = Some sess \<and> trim js (displayName page) \<noteq> []
        \<and> (\<exists>s \<in> set (sessions db). s_id s = s_id sess \<and> status s = lobby)
        \<and> (\<forall>p \<in> set (session_players db). p_session_id p = s_id sess \<and> \<not> is_removed p \<longrightarrow>
              toLowerCase js (display_name p) \<noteq> toLowerCase js (trim js (displayName page)))"
  then have sess: "session page = Some sess" and name: "trim js (displayName page) \<noteq> []"
    and open_lobby: "\<exists>s \<in> set (sessions db). s_id s = s_id sess \<and> status s = lobby"
    and free: "\<forall>p \<in> set (session_players db). p_session_id p = s_id sess \<and> \<not> is_removed p \<longrightarrow>
        toLowerCase js (display_name p) \<noteq> toLowerCase js (trim js (displayName page))"
    by simp_all
  from sess name open_lobby free
  show "session_players (snd (handleJoin js new_id (page, db)))
          = session_players db @
              [\<lparr>p_id = new_id, p_session_id = s_id sess,
                display_name = trim js (displayName page),
                avatar_color = avatarColor page, score = 0, is_removed = False\<rparr>]"
    by (rule handleJoin_no_collision)
next
  show "map display_name (session_players (snd (handleJoin ascii_strings 6
          (sample_page, sample_lobby_db))))
       = [''Alex'', ''ALEX2'', ''Alex3'', ''alex3'', ''Alex3'']"
    by code_simp
qed

theorem handleJoin_smallest_suffix_witness:
  "session sample_page = Some sample_session
   \<and> trim ascii_strings (displayName sample_page) = ''Alex''
   \<and> map (\<lambda>p. (p_session_id p, is_removed p, toLowerCase ascii_strings (display_name p)))
         (session_players sample_lobby_db)
       = [(1, False, ''alex''), (1, False, ''alex2''), (1, True, ''alex3''), (2, False, ''alex3'')]
   \<and> lower_keeps_suffix ascii_strings
   \<and> (\<exists>k\<ge>2. session_players (snd (handleJoin ascii_strings 6 (sample_page, sample_lobby_db)))
          = session_players sample_lobby_db @
              [\<lparr>p_id = 6, p_session_id = 1, display_name = ''Alex'' @ string_of_nat k,
                avatar_color = ''#ef4444'', score = 0, is_removed = False\<rparr>])
   \<and> session_players (snd (handleJoin ascii_strings 6 (sample_page, sample_lobby_db)))
       = session_players sample_lobby_db @
           [\<lparr>p_id = 6, p_session_id = 1, display_name = ''Alex3'',
             avatar_color = ''#ef4444'', score = 0, is_removed = False\<rparr>]"
proof -
  have sess: "session sample_page = Some sample_session"
    by (simp add: sample_page_def)
  have name: "trim ascii_strings (displayName sample_page) = ''Alex''"
    by code_simp
  have roster: "map (\<lambda>p. (p_session_id p, is_removed p, toLowerCase ascii_strings (display_name p)))
         (session_players sample_lobby_db)
       = [(1, False, ''alex''), (1, False, ''alex2''), (1, True, ''alex3''), (2, False, ''alex3'')]"
    by code_simp
  have open_lobby: "\<exists>s \<in> set (sessions sample_lobby_db).
      s_id s = s_id sample_session \<and> status s = lobby"
    by code_simp
  have collides: "\<exists>p \<in> set (session_players sample_lobby_db).
      p_session_id p = s_id sample_session \<and> \<not> is_removed p
      \<and> toLowerCase ascii_strings (display_name p)
            = toLowerCase ascii_strings (trim ascii_strings (displayName sample_page))"
    by code_simp
  have page: "s_id sample_session = 1 \<and> avatarColor sample_page = ''#ef4444''"
    by (simp add: sample_session_def sample_page_def)
  have nonempty: "trim ascii_strings (displayName sample_page) \<noteq> []"
    by (simp add: name)
  from handleJoin_smallest_suffix
    [where js = ascii_strings and page = sample_page and sess = sample_session
       and db = sample_lobby_db and new_id = 6]
    sess nonempty open_lobby collides
  have "\<exists>k\<ge>2. session_players (snd (handleJoin ascii_strings 6 (sample_page, sample_lobby_db)))
          = session_players sample_lobby_db @
              [\<lparr>p_id = 6, p_session_id = s_id sample_session,
                display_name = trim ascii_strings (displayName sample_page) @ string_of_nat k,
                avatar_color = avatarColor sample_page, score = 0, is_removed = False\<rparr>]"
    by blast
  then have some: "\<exists>k\<ge>2.
      session_players (snd (handleJoin ascii_strings 6 (sample_page, sample_lobby_db)))
          = session_players sample_lobby_db @
              [\<lparr>p_id = 6, p_session_id = 1, display_name = ''Alex'' @ string_of_nat k,
                avatar_color = ''#ef4444'', score = 0, is_removed = False\<rparr>]"
    by (simp only: name page)
  have three: "session_players (snd (handleJoin ascii_strings 6 (sample_page, sample_lobby_db)))
       = session_players sample_lobby_db @
           [\<lparr>p_id = 6, p_session_id = 1, display_name = ''Alex3'',
             avatar_color = ''#ef4444'', score = 0, is_removed = False\<rparr>]"
    by code_simp
  from sess name roster ascii_strings_keeps_suffix some three show ?thesis
    by (intro conjI)
qed

text \<open>
  C3. The store admits a row of session_players only while its session is in the lobby.
  A join for a session that is playing or finished is refused: handleJoin leaves the
  store as it was, sets no player and reports the error. A finished session is not even
  found by its code, and a join from the page that did not find it changes nothing.
\<close>

theorem join_outside_lobby_rejected:
  "((\<forall>s \<in> set (sessions db). s_id s = p_session_id row \<longrightarrow> status s \<noteq> lobby) \<longrightarrow>
      insert_session_player db row = Inl RowLevelSecurity)
   \<and> (session page = Some sess
        \<and> (\<forall>s \<in> set (sessions db). s_id s = s_id sess \<longrightarrow> status s \<noteq> lobby) \<longrightarrow>
      snd (handleJoin js new_id (page, db)) = db
      \<and> player (fst (handleJoin js new_id (page, db))) = player page
      \<and> phase (fst (handleJoin js new_id (page, db))) = phase page
      \<and> error (fst (handleJoin js new_id (page, db))) \<noteq> Msg [])
   \<and> (session page = None
        \<and> (\<forall>s \<in> set (sessions db). code s = toUpperCase js sessionCode \<longrightarrow> status s = finished) \<longrightarrow>
      phase (findSession js sessionCode stored db page) = PhaseError
      \<and> snd (handleJoin js new_id (findSession js sessionCode stored db page, db)) = db)"
proof (intro conjI impI)
  assume "\<forall>s \<in> set (sessions db). s_id s = p_session_id row \<longrightarrow> status s \<noteq> lobby"
  then show "insert_session_player db row = Inl RowLevelSecurity"
    by (rule insert_session_player_rejected)
next
  assume a: "session page = Some sess
        \<and> (\<forall>s \<in> set (sessions db). s_id s = s_id sess \<longrightarrow> status s \<noteq> lobby)"
  then have r: "snd (handleJoin js new_id (page, db)) = db
    \<and> player (fst (handleJoin js new_id (page, db))) = player page
    \<and> phase (fst (handleJoin js new_id (page, db))) = phase page
    \<and> error (fst (handleJoin js new_id (page, db))) \<noteq> Msg []"
    using handleJoin_rejected [of page sess db js new_id] by blast
  from r show "snd (handleJoin js new_id (page, db)) = db" by simp
  from r show "player (fst (handleJoin js new_id (page, db))) = player page" by simp
  from r show "phase (fst (handleJoin js new_id (page, db))) = phase page" by simp
  from r show "error (fst (handleJoin js new_id (page, db))) \<noteq> Msg []" by simp
next
  assume a: "session page = None
        \<and> (\<forall>s \<in> set (sessions db). code s = toUpperCase js sessionCode \<longrightarrow> status s = finished)"
  then have f: "findSession js sessionCode stored db page
           = page\<lparr>error := Msg ''Game not found. Check the code and try again.'',
                  phase := PhaseError\<rparr>"
    by (intro findSession_finished) simp
  from f show "phase (findSession js sessionCode stored db page) = PhaseError"
    by simp
  from a f have "session (findSession js sessionCode stored db page) = None"
    by simp
  then show "snd (handleJoin js new_id (findSession js sessionCode stored db page, db)) = db"
    by (rule handleJoin_no_session)
qed

theorem join_outside_lobby_rejected_witness:
  "session sample_page = Some sample_session
   \<and> status sample_session = playing
   \<and> snd (handleJoin ascii_strings 6 (sample_page, sample_db)) = sample_db
   \<and> player (fst (handleJoin ascii_strings 6 (sample_page, sample_db))) = Some sample_player
   \<and> error (fst (handleJoin ascii_strings 6 (sample_page, sample_db))) = Thrown RowLevelSecurity"
proof -
  have s: "session sample_page = Some sample_session"
    by (simp add: sample_page_def)
  have p: "\<forall>s \<in> set (sessions sample_db). s_id s = s_id sample_session \<longrightarrow> status s \<noteq> lobby"
    by (simp add: sample_db_def sample_session_def)
  have e: "error (fst (handleJoin ascii_strings 6 (sample_page, sample_db))) = Thrown RowLevelSecurity"
    by code_simp
  from join_outside_lobby_rejected
    [where js = ascii_strings and page = sample_page and sess = sample_session
       and db = sample_db and new_id = 6]
    s p
  have "snd (handleJoin ascii_strings 6 (sample_page, sample_db)) = sample_db
      \<and> player (fst (handleJoin ascii_strings 6 (sample_page, sample_db))) = player sample_page"
    by blast
  with s e show ?thesis
    by (simp add: sample_page_def sample_session_def)
qed

section \<open>Answers\<close>

lemma insert_session_answer_appends:
  assumes "insert_session_answer db row = Inr db'"
  shows "session_answers db' = session_answers db @ [row]"
    and "answer_key row \<notin> answer_key ` set (session_answers db)"
proof -
  from assms show fresh: "answer_key row \<notin> answer_key ` set (session_answers db)"
    by (auto simp: insert_session_answer_def split: if_splits)
  from assms have
    "db' = update_player_score row (db\<lparr>session_answers := session_answers db @ [row]\<rparr>)"
    by (auto simp: insert_session_answer_def split: if_splits)
  then show "session_answers db' = session_answers db @ [row]"
    by (simp add: update_player_score_def)
qed

lemma insert_session_answer_unique:
  assumes "answers_unique db" and "insert_session_answer db row = Inr db'"
  shows "answers_unique db'"
  using assms insert_session_answer_appends [OF assms(2)]
  by (simp add: answers_unique_def)

lemma insert_session_answer_duplicate:
  assumes "\<exists>b \<in> set (session_answers db). answer_key b = answer_key row"
  shows "\<exists>e. insert_session_answer db row = Inl e"
  using assms by (simp add: insert_session_answer_def)

text \<open>The store after handleAnswer: unchanged, or the result of one accepted insert.\<close>

lemma handleAnswer_db:
  "snd (handleAnswer now choiceId (page, db)) = db
   \<or> (\<exists>row. insert_session_answer db row = Inr (snd (handleAnswer now choiceId (page, db)))
         \<and> Some (a_session_id row) = map_option s_id (session page)
         \<and> Some (a_player_id row) = map_option p_id (player page)
         \<and> Some (a_question_id row) = map_option question_id (questionState page))"
  by (auto simp: handleAnswer_def Let_def split: option.splits sum.splits)

lemma handleAnswer_unique:
  assumes "answers_unique db"
  shows "answers_unique (snd (handleAnswer now choiceId (page, db)))"
  using handleAnswer_db [of now choiceId page db] assms
  by (auto dest: insert_session_answer_unique)

lemma handleAnswer_duplicate:
  assumes "session page = Some sess" and "player page = Some pl"
    and "questionState page = Some qs"
    and dup: "\<exists>b \<in> set (session_answers db). answer_key b = (s_id sess, p_id pl, question_id qs)"
  shows "snd (handleAnswer now choiceId (page, db)) = db"
proof (rule ccontr)
  assume changed: "snd (handleAnswer now choiceId (page, db)) \<noteq> db"
  with handleAnswer_db [of now choiceId page db] assms(1-3)
  obtain row where ins: "insert_session_answer db row = Inr (snd (handleAnswer now choiceId (page, db)))"
    and key: "answer_key row = (s_id sess, p_id pl, question_id qs)"
    by (auto simp: answer_key_def)
  from insert_session_answer_appends(2) [OF ins] key dup show False
    by force
qed

lemma handleAnswer_already_selected:
  assumes "selectedChoiceId page \<noteq> None"
  shows "handleAnswer now choiceId (page, db) = (page, db)"
  using assms by (auto simp: handleAnswer_def split: option.splits)

text \<open>
  C2. The answers of a store hold at most one row for a triple of session, player and
  question: the property holds of a store with no answers and every insert, and every
  handleAnswer, keeps it. An insert for a triple that already has a row is refused with
  an error; handleAnswer by a player whose triple already has a row, and handleAnswer on
  a page that already holds a selected choice, leave the whole store as it was, so the
  first answer's points and the player's score are what they were.
\<close>

theorem answer_at_most_once:
  "(session_answers db = [] \<longrightarrow> answers_unique db)
   \<and> (answers_unique db \<and> insert_session_answer db row = Inr db' \<longrightarrow> answers_unique db')
   \<and> (answers_unique db \<longrightarrow> answers_unique (snd (handleAnswer now choiceId (page, db))))
   \<and> ((\<exists>b \<in> set (session_answers db). answer_key b = answer_key row) \<longrightarrow>
        (\<exists>e. insert_session_answer db row = Inl e))
   \<and> (session page = Some sess \<and> player page = Some pl \<and> questionState page = Some qs
        \<and> (\<exists>b \<in> set (session_answers db).
              answer_key b = (s_id sess, p_id pl, question_id qs)) \<longrightarrow>
        snd (handleAnswer now choiceId (page, db)) = db)
   \<and> (selectedChoiceId page \<noteq> None \<longrightarrow> handleAnswer now choiceId (page, db) = (page, db))"
proof (intro conjI impI)
  show "answers_unique db" if "session_answers db = []"
    using that by (simp add: answers_unique_def)
  show "answers_unique db'" if "answers_unique db \<and> insert_session_answer db row = Inr db'"
    using that insert_session_answer_unique [of db row db'] by blast
  show "answers_unique (snd (handleAnswer now choiceId (page, db)))" if "answers_unique db"
    using that by (rule handleAnswer_unique)
  show "\<exists>e. insert_session_answer db row = Inl e"
    if "\<exists>b \<in> set (session_answers db). answer_key b = answer_key row"
    using that by (rule insert_session_answer_duplicate)
  show "snd (handleAnswer now choiceId (page, db)) = db"
    if "session page = Some sess \<and> player page = Some pl \<and> questionState page = Some qs
        \<and> (\<exists>b \<in> set (session_answers db).
              answer_key b = (s_id sess, p_id pl, question_id qs))"
    using that handleAnswer_duplicate [of page sess pl qs db now choiceId] by blast
  show "handleAnswer now choiceId (page, db) = (page, db)" if "selectedChoiceId page \<noteq> None"
    using that by (rule handleAnswer_already_selected)
qed

theorem answer_at_most_once_witness:
  "map points_awarded (session_answers sample_answered_db) = [1250]
   \<and> map score (session_players sample_answered_db) = [1250, 0]
   \<and> answers_unique sample_answered_db
   \<and> snd (handleAnswer 17000 21 (sample_page, sample_answered_db)) = sample_answered_db"
proof -
  have elapsed: "js_sub (Num 16000) (Num 1000) = Num 15000"
    by (simp add: js_sub_def double_ints)
  note points = handleAnswer_points_15000
  have first: "session_answers sample_answered_db
      = [\<lparr>a_session_id = 1, a_player_id = 4, a_question_id = 11, choice_id = 20,
           is_correct = True, time_ms = 15000, points_awarded = 1250\<rparr>]"
    by (simp add: sample_answered_db_def handleAnswer_def sample_defs Let_def elapsed points
        insert_session_answer_def update_player_score_def answer_key_def)
  have scores: "map score (session_players sample_answered_db) = [1250, 0]"
    by (simp add: sample_answered_db_def handleAnswer_def sample_defs Let_def elapsed points
        insert_session_answer_def update_player_score_def answer_key_def)
  have empty: "session_answers sample_db = []"
    by (simp add: sample_db_def)
  have page: "session sample_page = Some sample_session \<and> player sample_page = Some sample_player
      \<and> questionState sample_page = Some sample_state"
    by (simp add: sample_page_def)
  have dup: "\<exists>b \<in> set (session_answers sample_answered_db).
      answer_key b = (s_id sample_session, p_id sample_player, question_id sample_state)"
    by (simp add: first answer_key_def sample_defs)
  from answer_at_most_once [where db = sample_db] empty
  have "answers_unique sample_db"
    by blast
  with answer_at_most_once
    [where db = sample_db and now = 16000 and choiceId = 20 and page = sample_page]
  have uniq: "answers_unique sample_answered_db"
    unfolding sample_answered_db_def by blast
  from answer_at_most_once
    [where db = sample_answered_db and page = sample_page and sess = sample_session
       and pl = sample_player and qs = sample_state and now = 17000 and choiceId = 21]
    page dup
  have "snd (handleAnswer 17000 21 (sample_page, sample_answered_db)) = sample_answered_db"
    by blast
  with first scores uniq show ?thesis
    by simp
qed

section \<open>Pause, resume and lock\<close>

lemma pg_int_of_int:
  "pg_int (Num (of_int n))
     = (if - 2147483648 \<le> n \<and> n \<le> 2147483647 then Inr n else Inl InvalidInteger)"
  by simp

lemma pauseResume_pause:
  assumes "\<not> is_paused qs" and "end_ms qs - now \<le> 2147483647"
  shows "pauseResume now timerSeconds qs
           = qs\<lparr>is_paused := True, paused_remaining_ms := Some (max 0 (end_ms qs - now))\<rparr>"
  using assms by (simp add: pauseResume_def Let_def)

lemma pauseResume_refused:
  assumes "\<not> is_paused qs" and "2147483647 < end_ms qs - now"
  shows "pauseResume now timerSeconds qs = qs"
  using assms by (simp add: pauseResume_def Let_def)

lemma pauseResume_resume:
  assumes "is_paused qs" and "paused_remaining_ms qs = Some r"
  shows "pauseResume now timerSeconds qs
           = qs\<lparr>is_paused := False, paused_remaining_ms := None,
                started_at := Some (now - (timerSeconds * 1000 - r)),
                ends_at := Some (now + r)\<rparr>"
  using assms by (simp add: pauseResume_def Let_def)

text \<open>
  C4, as the code has it. Pausing a row that is active and not locked, with a remaining
  time that fits the column, stores \<open>max 0 (end - now)\<close> in \<open>paused_remaining_ms\<close> and
  sets \<open>is_paused\<close>. It writes no other column: \<open>ends_at\<close> keeps the scheduled end while
  the row is paused. Where the remaining time does not fit the column the update is
  refused and the row stays as it was.
\<close>

theorem pause_stores_remaining:
  "(\<not> is_paused qs \<and> \<not> is_locked qs \<and> ends_at qs = Some e \<and> e - now \<le> 2147483647 \<longrightarrow>
      paused_remaining_ms (pauseResume now timerSeconds qs) = Some (max 0 (e - now))
      \<and> is_paused (pauseResume now timerSeconds qs)
      \<and> ends_at (pauseResume now timerSeconds qs) = Some e
      \<and> pauseResume now timerSeconds qs
            = qs\<lparr>is_paused := True, paused_remaining_ms := Some (max 0 (e - now))\<rparr>)
   \<and> (\<not> is_paused qs \<and> \<not> is_locked qs \<and> ends_at qs = Some e \<and> 2147483647 < e - now \<longrightarrow>
      pauseResume now timerSeconds qs = qs)"
proof (intro conjI impI)
  assume a: "\<not> is_paused qs \<and> \<not> is_locked qs \<and> ends_at qs = Some e \<and> e - now \<le> 2147483647"
  then have e: "end_ms qs = e"
    by (simp add: end_ms_def)
  with a have p: "pauseResume now timerSeconds qs
      = qs\<lparr>is_paused := True, paused_remaining_ms := Some (max 0 (end_ms qs - now))\<rparr>"
    by (intro pauseResume_pause) simp_all
  show "paused_remaining_ms (pauseResume now timerSeconds qs) = Some (max 0 (e - now))"
    by (simp add: p e)
  show "is_paused (pauseResume now timerSeconds qs)"
    by (simp add: p)
  show "ends_at (pauseResume now timerSeconds qs) = Some e"
    using a by (simp add: p)
  show "pauseResume now timerSeconds qs
      = qs\<lparr>is_paused := True, paused_remaining_ms := Some (max 0 (e - now))\<rparr>"
    by (simp add: p e)
next
  assume a: "\<not> is_paused qs \<and> \<not> is_locked qs \<and> ends_at qs = Some e \<and> 2147483647 < e - now"
  then have "end_ms qs = e"
    by (simp add: end_ms_def)
  with a show "pauseResume now timerSeconds qs = qs"
    by (intro pauseResume_refused) simp_all
qed

theorem pause_stores_remaining_witness:
  "\<not> is_paused sample_state \<and> \<not> is_locked sample_state
   \<and> ends_at sample_state = Some 31000
   \<and> (31000 :: int) - 11000 \<le> 2147483647
   \<and> paused_remaining_ms (pauseResume 11000 30 sample_state) = Some 20000
   \<and> is_paused (pauseResume 11000 30 sample_state)
   \<and> ends_at (pauseResume 11000 30 sample_state) = Some 31000
   \<and> ends_at (sample_state\<lparr>ends_at := Some 2147494648\<rparr>) = Some 2147494648
   \<and> (2147483647 :: int) < 2147494648 - 11000
   \<and> pauseResume 11000 30 (sample_state\<lparr>ends_at := Some 2147494648\<rparr>)
       = sample_state\<lparr>ends_at := Some 2147494648\<rparr>"
proof -
  have a: "\<not> is_paused sample_state \<and> \<not> is_locked sample_state
      \<and> ends_at sample_state = Some 31000 \<and> (31000 :: int) - 11000 \<le> 2147483647"
    by (simp add: sample_defs)
  with pause_stores_remaining [where qs = sample_state and e = 31000 and now = 11000
      and timerSeconds = 30]
  have stored: "paused_remaining_ms (pauseResume 11000 30 sample_state)
        = Some (max 0 (31000 - 11000))
      \<and> is_paused (pauseResume 11000 30 sample_state)
      \<and> ends_at (pauseResume 11000 30 sample_state) = Some 31000"
    by blast
  have b: "\<not> is_paused (sample_state\<lparr>ends_at := Some 2147494648\<rparr>)
      \<and> \<not> is_locked (sample_state\<lparr>ends_at := Some 2147494648\<rparr>)
      \<and> ends_at (sample_state\<lparr>ends_at := Some 2147494648\<rparr>) = Some 2147494648
      \<and> (2147483647 :: int) < 2147494648 - 11000"
    by (simp add: sample_defs)
  with pause_stores_remaining [where qs = "sample_state\<lparr>ends_at := Some 2147494648\<rparr>"
      and e = 2147494648 and now = 11000 and timerSeconds = 30]
  have refused: "pauseResume 11000 30 (sample_state\<lparr>ends_at := Some 2147494648\<rparr>)
       = sample_state\<lparr>ends_at := Some 2147494648\<rparr>"
    by blast
  from a b stored refused show ?thesis
    by simp
qed

text \<open>
  The claim as the specification states it fails: the sample row is active and not
  locked, and after the pause its \<open>ends_at\<close> is still the scheduled end, not null.
\<close>

theorem pause_clears_ends_at_counterexample:
  "\<not> is_paused sample_state \<and> \<not> is_locked sample_state
   \<and> is_paused (pauseResume 11000 30 sample_state)
   \<and> ends_at (pauseResume 11000 30 sample_state) = Some 31000
   \<and> ends_at (pauseResume 11000 30 sample_state) \<noteq> None"
  by (simp add: sample_defs pauseResume_def end_ms_def Let_def)

text \<open>
  C5. Resuming a paused row with snapshot \<open>r\<close> sets the end to \<open>now + r\<close> and the start
  to \<open>now - (timerSeconds * 1000 - r)\<close>, clears the pause, and leaves a window of
  exactly the timer's length, so that the elapsed time at the resume is the timer less
  the snapshot. A pause followed at the same instant by a resume leaves the remaining time
  of every row as it was, and gives a row whose window is the timer's length back as it
  was. Pausing at \<open>t1\<close> and resuming at \<open>t2\<close>, where the store took the pause (the
  remaining time fits the column), gives at \<open>t2\<close> the remaining time the row had at
  \<open>t1\<close>; where the timer had not run out at \<open>t1\<close> the end moves by the time spent
  paused, \<open>t2 - t1\<close>, and so does the start of a row whose window was the timer's
  length, so the elapsed time at \<open>t2\<close> is the one at \<open>t1\<close>.
\<close>

theorem resume_restores_timer:
  "(is_paused qs \<and> paused_remaining_ms qs = Some r \<longrightarrow>
      ends_at (pauseResume now timerSeconds qs) = Some (now + r)
      \<and> started_at (pauseResume now timerSeconds qs) = Some (now - (timerSeconds * 1000 - r))
      \<and> \<not> is_paused (pauseResume now timerSeconds qs)
      \<and> paused_remaining_ms (pauseResume now timerSeconds qs) = None
      \<and> end_ms (pauseResume now timerSeconds qs) - now = r
      \<and> elapsed_ms now (pauseResume now timerSeconds qs) = timerSeconds * 1000 - r)
   \<and> (\<not> is_paused qs \<longrightarrow>
      remaining_ms t1 (pauseResume t1 timerSeconds (pauseResume t1 timerSeconds qs))
        = remaining_ms t1 qs)
   \<and> (\<not> is_paused qs \<and> end_ms qs - t1 \<le> 2147483647 \<longrightarrow>
      remaining_ms t2 (pauseResume t2 timerSeconds (pauseResume t1 timerSeconds qs))
        = remaining_ms t1 qs)
   \<and> (\<not> is_paused qs \<and> ends_at qs = Some e \<and> t1 \<le> e \<and> e - t1 \<le> 2147483647 \<longrightarrow>
      ends_at (pauseResume t2 timerSeconds (pauseResume t1 timerSeconds qs))
        = Some (e + (t2 - t1)))
   \<and> (\<not> is_paused qs \<and> ends_at qs = Some e \<and> t1 \<le> e \<and> e - t1 \<le> 2147483647
        \<and> started_at qs = Some (e - timerSeconds * 1000) \<longrightarrow>
      elapsed_ms t2 (pauseResume t2 timerSeconds (pauseResume t1 timerSeconds qs))
        = elapsed_ms t1 qs)
   \<and> (\<not> is_paused qs \<and> ends_at qs = Some e \<and> t1 \<le> e
        \<and> started_at qs = Some (e - timerSeconds * 1000) \<and> paused_remaining_ms qs = None \<longrightarrow>
      pauseResume t1 timerSeconds (pauseResume t1 timerSeconds qs) = qs)"
proof (intro conjI impI)
  assume a: "is_paused qs \<and> paused_remaining_ms qs = Some r"
  then have p: "pauseResume now timerSeconds qs
      = qs\<lparr>is_paused := False, paused_remaining_ms := None,
           started_at := Some (now - (timerSeconds * 1000 - r)),
           ends_at := Some (now + r)\<rparr>"
    by (intro pauseResume_resume) simp_all
  show "ends_at (pauseResume now timerSeconds qs) = Some (now + r)"
    by (simp add: p)
  show "started_at (pauseResume now timerSeconds qs) = Some (now - (timerSeconds * 1000 - r))"
    by (simp add: p)
  show "\<not> is_paused (pauseResume now timerSeconds qs)"
    by (simp add: p)
  show "paused_remaining_ms (pauseResume now timerSeconds qs) = None"
    by (simp add: p)
  show "end_ms (pauseResume now timerSeconds qs) - now = r"
    by (simp add: p end_ms_def)
  show "elapsed_ms now (pauseResume now timerSeconds qs) = timerSeconds * 1000 - r"
    by (simp add: p elapsed_ms_def)
next
  assume a: "\<not> is_paused qs"
  show "remaining_ms t1 (pauseResume t1 timerSeconds (pauseResume t1 timerSeconds qs))
      = remaining_ms t1 qs"
  proof (cases "end_ms qs - t1 \<le> 2147483647")
    case True
    with a show ?thesis
      by (simp add: pauseResume_pause pauseResume_def remaining_ms_def end_ms_def Let_def)
  next
    case False
    with a have "pauseResume t1 timerSeconds qs = qs"
      by (intro pauseResume_refused) simp_all
    then show ?thesis
      by simp
  qed
next
  assume "\<not> is_paused qs \<and> end_ms qs - t1 \<le> 2147483647"
  then show "remaining_ms t2 (pauseResume t2 timerSeconds (pauseResume t1 timerSeconds qs))
      = remaining_ms t1 qs"
    by (simp add: pauseResume_pause pauseResume_def remaining_ms_def end_ms_def Let_def)
next
  assume a: "\<not> is_paused qs \<and> ends_at qs = Some e \<and> t1 \<le> e \<and> e - t1 \<le> 2147483647"
  then have "end_ms qs - t1 \<le> 2147483647"
    by (simp add: end_ms_def)
  with a show "ends_at (pauseResume t2 timerSeconds (pauseResume t1 timerSeconds qs))
      = Some (e + (t2 - t1))"
    by (simp add: pauseResume_pause pauseResume_def end_ms_def Let_def)
next
  assume a: "\<not> is_paused qs \<and> ends_at qs = Some e \<and> t1 \<le> e \<and> e - t1 \<le> 2147483647
      \<and> started_at qs = Some (e - timerSeconds * 1000)"
  then have "end_ms qs - t1 \<le> 2147483647"
    by (simp add: end_ms_def)
  with a show "elapsed_ms t2 (pauseResume t2 timerSeconds (pauseResume t1 timerSeconds qs))
      = elapsed_ms t1 qs"
    by (simp add: pauseResume_pause pauseResume_def end_ms_def elapsed_ms_def Let_def)
next
  assume a: "\<not> is_paused qs \<and> ends_at qs = Some e \<and> t1 \<le> e
      \<and> started_at qs = Some (e - timerSeconds * 1000) \<and> paused_remaining_ms qs = None"
  show "pauseResume t1 timerSeconds (pauseResume t1 timerSeconds qs) = qs"
  proof (cases "end_ms qs - t1 \<le> 2147483647")
    case True
    with a show ?thesis
      by (simp add: pauseResume_pause pauseResume_def end_ms_def Let_def)
  next
    case False
    with a have "pauseResume t1 timerSeconds qs = qs"
      by (intro pauseResume_refused) simp_all
    then show ?thesis
      by simp
  qed
qed

theorem resume_restores_timer_witness:
  "is_paused (pauseResume 11000 30 sample_state)
   \<and> paused_remaining_ms (pauseResume 11000 30 sample_state) = Some 20000
   \<and> ends_at (pauseResume 50000 30 (pauseResume 11000 30 sample_state)) = Some 70000
   \<and> started_at (pauseResume 50000 30 (pauseResume 11000 30 sample_state)) = Some 40000
   \<and> remaining_ms 50000 (pauseResume 50000 30 (pauseResume 11000 30 sample_state)) = 20000
   \<and> remaining_ms 11000 sample_state = 20000
   \<and> elapsed_ms 50000 (pauseResume 50000 30 (pauseResume 11000 30 sample_state)) = 10000
   \<and> elapsed_ms 11000 sample_state = 10000
   \<and> pauseResume 11000 30 (pauseResume 11000 30 sample_state) = sample_state"
proof -
  have paused: "is_paused (pauseResume 11000 30 sample_state)
      \<and> paused_remaining_ms (pauseResume 11000 30 sample_state) = Some 20000"
    by (simp add: sample_defs pauseResume_def end_ms_def Let_def)
  have active: "\<not> is_paused sample_state \<and> ends_at sample_state = Some 31000
      \<and> (11000::int) \<le> 31000 \<and> (31000::int) - 11000 \<le> 2147483647
      \<and> end_ms sample_state - 11000 \<le> 2147483647
      \<and> started_at sample_state = Some (31000 - 30 * 1000)
      \<and> paused_remaining_ms sample_state = None"
    by (simp add: sample_defs end_ms_def)
  have before: "remaining_ms 11000 sample_state = 20000 \<and> elapsed_ms 11000 sample_state = 10000"
    by (simp add: sample_defs remaining_ms_def elapsed_ms_def end_ms_def)
  from resume_restores_timer
    [where qs = "pauseResume 11000 30 sample_state" and r = 20000 and now = 50000
       and timerSeconds = 30]
    paused
  have resumed: "ends_at (pauseResume 50000 30 (pauseResume 11000 30 sample_state))
        = Some (50000 + 20000)
      \<and> started_at (pauseResume 50000 30 (pauseResume 11000 30 sample_state))
        = Some (50000 - (30 * 1000 - 20000))"
    by blast
  from resume_restores_timer
    [where qs = sample_state and e = 31000 and ?t1.0 = 11000 and ?t2.0 = 50000
       and timerSeconds = 30]
    active
  have round: "remaining_ms 50000 (pauseResume 50000 30 (pauseResume 11000 30 sample_state))
        = remaining_ms 11000 sample_state
      \<and> elapsed_ms 50000 (pauseResume 50000 30 (pauseResume 11000 30 sample_state))
        = elapsed_ms 11000 sample_state
      \<and> pauseResume 11000 30 (pauseResume 11000 30 sample_state) = sample_state"
    by blast
  from paused resumed round before show ?thesis
    by simp
qed

lemma host_step_flags:
  "is_locked qs \<longrightarrow> is_locked (host_step w qs)"
  "show_results qs \<longrightarrow> show_results (host_step w qs)"
  "(is_locked qs \<longrightarrow> show_results qs)
     \<longrightarrow> (is_locked (host_step w qs) \<longrightarrow> show_results (host_step w qs))"
  by (cases w; simp add: pauseResume_def endQuestionEarly_def showLeaderboard_def Let_def)+

lemma host_run_flags:
  "(is_locked qs \<longrightarrow> is_locked (host_run ws qs))
   \<and> (show_results qs \<longrightarrow> show_results (host_run ws qs))
   \<and> ((is_locked qs \<longrightarrow> show_results qs)
        \<longrightarrow> (is_locked (host_run ws qs) \<longrightarrow> show_results (host_run ws qs)))"
proof (induction ws arbitrary: qs)
  case Nil
  show ?case by (simp add: host_run_def)
next
  case (Cons w ws)
  have step: "host_run (w # ws) qs = host_run ws (host_step w qs)"
    by (simp add: host_run_def)
  from Cons [of "host_step w qs"] host_step_flags [of qs w]
  show ?case
    unfolding step by blast
qed

text \<open>
  C6. endQuestionEarly writes \<open>is_locked\<close> and \<open>show_results\<close> in one update. From the row
  startGame or nextQuestion inserts, no run of the host's writes (pause and resume, lock,
  show the leaderboard, in any order) reaches a row that is locked without showing its
  results; and a flag that is true stays true through every run.
\<close>

theorem lock_and_results_together:
  "is_locked (endQuestionEarly qs) \<and> show_results (endQuestionEarly qs)
   \<and> endQuestionEarly qs = qs\<lparr>is_locked := True, show_results := True\<rparr>
   \<and> (is_locked (host_run ws (new_question_state new_id sid idx qid now timerSeconds))
        \<longrightarrow> show_results (host_run ws (new_question_state new_id sid idx qid now timerSeconds)))
   \<and> (is_locked qs \<longrightarrow> is_locked (host_run ws qs))
   \<and> (show_results qs \<longrightarrow> show_results (host_run ws qs))"
proof -
  let ?q0 = "new_question_state new_id sid idx qid now timerSeconds"
  have "is_locked ?q0 \<longrightarrow> show_results ?q0"
    by (simp add: new_question_state_def)
  with host_run_flags [of ?q0 ws] host_run_flags [of qs ws] show ?thesis
    by (simp add: endQuestionEarly_def)
qed

theorem lock_and_results_together_witness:
  "is_locked (host_run [PauseResume 11000 30, PauseResume 50000 30, EndQuestionEarly,
                        ShowLeaderboard, PauseResume 60000 30] sample_state)
   \<and> show_results (host_run [PauseResume 11000 30, PauseResume 50000 30, EndQuestionEarly,
                             ShowLeaderboard, PauseResume 60000 30] sample_state)
   \<and> is_locked (endQuestionEarly sample_state)
   \<and> is_locked (host_run [ShowLeaderboard, PauseResume 60000 30] (endQuestionEarly sample_state))"
proof -
  let ?ws = "[PauseResume 11000 30, PauseResume 50000 30, EndQuestionEarly,
              ShowLeaderboard, PauseResume 60000 30]"
  have locked: "is_locked (host_run ?ws sample_state)"
    by (simp add: host_run_def sample_defs pauseResume_def endQuestionEarly_def
        showLeaderboard_def Let_def)
  from lock_and_results_together
    [where ws = ?ws and new_id = 3 and sid = 1 and idx = 0 and qid = 11 and now = 1000
       and timerSeconds = 30]
    locked
  have shown: "show_results (host_run ?ws sample_state)"
    unfolding sample_state_def by blast
  from lock_and_results_together
    [where qs = "endQuestionEarly sample_state" and ws = "[ShowLeaderboard, PauseResume 60000 30]"]
    lock_and_results_together [where qs = sample_state]
  have "is_locked (endQuestionEarly sample_state)
      \<and> is_locked (host_run [ShowLeaderboard, PauseResume 60000 30] (endQuestionEarly sample_state))"
    by blast
  with locked shown show ?thesis
    by blast
qed

section \<open>The join code\<close>

lemma distinct_filter_le1:
  "distinct (map f xs) \<Longrightarrow> length (filter (\<lambda>x. f x = c) xs) \<le> 1"
proof (induction xs)
  case Nil
  then show ?case by simp
next
  case (Cons x xs)
  show ?case
  proof (cases "f x = c")
    case True
    from Cons.prems have "f x \<notin> f ` set xs" by simp
    with True have "\<forall>y \<in> set xs. f y \<noteq> c" by blast
    then have "filter (\<lambda>x. f x = c) xs = []"
      by (simp add: filter_empty_conv)
    with True show ?thesis by simp
  next
    case False
    with Cons show ?thesis by simp
  qed
qed

lemma maybeSingle_None_iff:
  "length rows \<le> 1 \<Longrightarrow> maybeSingle rows = None \<longleftrightarrow> rows = []"
  by (cases rows) (auto simp: maybeSingle_def split: list.splits)

text \<open>
  Under the unique index the query of the loop finds a row exactly when the code is the
  code of a session that is not finished.
\<close>

lemma collision_check:
  assumes "active_codes_unique ss"
  shows "maybeSingle (filter (\<lambda>s. code s = c \<and> status s \<noteq> finished) ss) = None
           \<longleftrightarrow> c \<notin> active_codes ss"
proof -
  let ?act = "filter (\<lambda>s. status s \<noteq> finished) ss"
  have split: "filter (\<lambda>s. code s = c \<and> status s \<noteq> finished) ss = filter (\<lambda>s. code s = c) ?act"
    by (simp add: conj_commute)
  from assms have "length (filter (\<lambda>s. code s = c) ?act) \<le> 1"
    unfolding active_codes_unique_def by (rule distinct_filter_le1)
  then have "maybeSingle (filter (\<lambda>s. code s = c) ?act) = None
      \<longleftrightarrow> filter (\<lambda>s. code s = c) ?act = []"
    by (rule maybeSingle_None_iff)
  also have "\<dots> \<longleftrightarrow> c \<notin> active_codes ss"
    by (auto simp: active_codes_def filter_empty_conv)
  finally show ?thesis
    by (simp only: split)
qed

lemma code_loop_free:
  assumes "active_codes_unique ss" and "attempts < 5" and "c \<notin> active_codes ss"
  shows "code_loop random ss c attempts = (c, attempts)"
  using assms collision_check [OF assms(1), of c]
  by (subst code_loop.simps) simp

lemma code_loop_taken:
  assumes "active_codes_unique ss" and "attempts < 5" and "c \<in> active_codes ss"
  shows "code_loop random ss c attempts
           = code_loop random ss (candidate random (attempts + 1)) (attempts + 1)"
proof -
  from assms collision_check [OF assms(1), of c]
  obtain existing where
    "maybeSingle (filter (\<lambda>s. code s = c \<and> status s \<noteq> finished) ss) = Some existing"
    by auto
  with assms(2) show ?thesis
    by (subst code_loop.simps) simp
qed

lemma code_loop_exhausted: "code_loop random ss c 5 = (c, 5)"
  by (subst code_loop.simps) simp

lemma code_loop_first_free:
  assumes u: "active_codes_unique ss"
    and "a \<le> k" and "k < 5"
    and "\<forall>j. a \<le> j \<and> j < k \<longrightarrow> candidate random j \<in> active_codes ss"
    and "candidate random k \<notin> active_codes ss"
  shows "code_loop random ss (candidate random a) a = (candidate random k, k)"
  using assms(2-)
proof (induction "k - a" arbitrary: a)
  case 0
  then have "a = k" by simp
  with 0 u show ?case by (simp add: code_loop_free)
next
  case (Suc d)
  then have lt: "a < k" and a5: "a < 5" by simp_all
  with Suc.prems have "candidate random a \<in> active_codes ss" by simp
  with u a5 have "code_loop random ss (candidate random a) a
      = code_loop random ss (candidate random (a + 1)) (a + 1)"
    by (rule code_loop_taken)
  also have "\<dots> = (candidate random k, k)"
  proof (rule Suc.hyps(1))
    show "d = k - (a + 1)" using Suc.hyps(2) by simp
    show "a + 1 \<le> k" using lt by simp
    show "k < 5" by (rule Suc.prems(2))
    show "\<forall>j. a + 1 \<le> j \<and> j < k \<longrightarrow> candidate random j \<in> active_codes ss"
      using Suc.prems(3) by simp
    show "candidate random k \<notin> active_codes ss" by (rule Suc.prems(4))
  qed
  finally show ?case .
qed

lemma code_loop_all_taken:
  assumes u: "active_codes_unique ss"
    and "a \<le> 5"
    and "\<forall>j. a \<le> j \<and> j < 5 \<longrightarrow> candidate random j \<in> active_codes ss"
  shows "code_loop random ss (candidate random a) a = (candidate random 5, 5)"
  using assms(2-)
proof (induction "5 - a" arbitrary: a)
  case 0
  then have "a = 5" by simp
  then show ?case by (simp add: code_loop_exhausted)
next
  case (Suc d)
  then have a5: "a < 5" by simp
  with Suc.prems have "candidate random a \<in> active_codes ss" by simp
  with u a5 have "code_loop random ss (candidate random a) a
      = code_loop random ss (candidate random (a + 1)) (a + 1)"
    by (rule code_loop_taken)
  also have "\<dots> = (candidate random 5, 5)"
  proof (rule Suc.hyps(1))
    show "d = 5 - (a + 1)" using Suc.hyps(2) by simp
    show "a + 1 \<le> 5" using a5 by simp
    show "\<forall>j. a + 1 \<le> j \<and> j < 5 \<longrightarrow> candidate random j \<in> active_codes ss"
      using Suc.prems(2) by simp
  qed
  finally show ?case .
qed

lemma allocate_code_first_free:
  assumes "active_codes_unique ss" and "k < 5"
    and "\<forall>j<k. candidate random j \<in> active_codes ss"
    and "candidate random k \<notin> active_codes ss"
  shows "allocate_code random ss = (candidate random k, k)"
proof -
  from assms(3) have "\<forall>j. 0 \<le> j \<and> j < k \<longrightarrow> candidate random j \<in> active_codes ss"
    by simp
  from code_loop_first_free [OF assms(1) _ assms(2) this assms(4)]
  show ?thesis
    by (simp add: allocate_code_def)
qed

lemma allocate_code_all_taken:
  assumes "active_codes_unique ss"
    and "\<forall>j<5. candidate random j \<in> active_codes ss"
  shows "allocate_code random ss = (candidate random 5, 5)"
proof -
  from assms(2) have "\<forall>j. 0 \<le> j \<and> j < 5 \<longrightarrow> candidate random j \<in> active_codes ss"
    by simp
  from code_loop_all_taken [OF assms(1) _ this]
  show ?thesis
    by (simp add: allocate_code_def)
qed

lemma first_free_exists:
  assumes "\<exists>j<5. candidate random j \<notin> active_codes ss"
  shows "\<exists>k<5. candidate random k \<notin> active_codes ss
           \<and> (\<forall>j<k. candidate random j \<in> active_codes ss)"
proof -
  define k where "k = (LEAST j. j < 5 \<and> candidate random j \<notin> active_codes ss)"
  from assms have k: "k < 5 \<and> candidate random k \<notin> active_codes ss"
    unfolding k_def by (rule LeastI_ex)
  have "candidate random j \<in> active_codes ss" if "j < k" for j
  proof (rule ccontr)
    assume "candidate random j \<notin> active_codes ss"
    with that k have "j < 5 \<and> candidate random j \<notin> active_codes ss" by simp
    then have "k \<le> j" unfolding k_def by (rule Least_le)
    with that show False by simp
  qed
  with k show ?thesis by blast
qed

lemma active_codes_iff:
  "c \<in> active_codes ss \<longleftrightarrow> (\<exists>s \<in> set ss. code s = c \<and> status s \<noteq> finished)"
  by (auto simp: active_codes_def)

text \<open>The insert of the new session is refused exactly when its code is taken.\<close>

lemma handleStartSession_insert:
  assumes "game = Some g" and "questions_length \<noteq> 0" and "user = Some uid"
  shows "handleStartSession random new_id game questions_length user db
    = (if fst (allocate_code random (sessions db)) \<in> active_codes (sessions db)
       then Inl (Thrown UniqueViolation)
       else Inr (db\<lparr>sessions := sessions db @
              [\<lparr>s_id = new_id, game_id = g_id g, host_id = uid,
                code = fst (allocate_code random (sessions db)), status = lobby,
                current_question_index = - 1, timer_seconds = g_timer_seconds g,
                speed_bonus = g_speed_bonus g, ended_at = None\<rparr>]\<rparr>))"
  using assms
  by (simp add: handleStartSession_def insert_session_def active_codes_iff Let_def)

lemma insert_session_keeps_unique:
  assumes "active_codes_unique (sessions db)" and "insert_session db row = Inr db'"
  shows "active_codes_unique (sessions db')"
  using assms
  by (auto simp: insert_session_def active_codes_unique_def split: if_splits)

text \<open>
  C7, as the code has it. In a store that keeps its unique index on the codes of the
  sessions that are not finished, the loop checks the candidates 0 to 4 against those
  sessions and returns the first that is free, with the number of retries; that code is
  not the code of a session that is not finished. When all five collide it returns
  candidate 5, which it does not check, after 5 retries. It always returns, and
  handleStartSession always goes on to the insert, which the store refuses exactly when
  the code returned is taken.
\<close>

theorem allocate_code_result:
  "(active_codes_unique ss \<and> k < 5 \<and> (\<forall>j<k. candidate random j \<in> active_codes ss)
      \<and> candidate random k \<notin> active_codes ss \<longrightarrow>
      allocate_code random ss = (candidate random k, k))
   \<and> (active_codes_unique ss \<and> (\<forall>j<5. candidate random j \<in> active_codes ss) \<longrightarrow>
      allocate_code random ss = (candidate random 5, 5))
   \<and> (active_codes_unique ss \<and> (\<exists>j<5. candidate random j \<notin> active_codes ss) \<longrightarrow>
      fst (allocate_code random ss) \<notin> active_codes ss)
   \<and> (active_codes_unique ss \<longrightarrow> snd (allocate_code random ss) \<le> 5)
   \<and> (game = Some g \<and> questions_length \<noteq> 0 \<and> user = Some uid \<longrightarrow>
      handleStartSession random new_id game questions_length user db
        = (if fst (allocate_code random (sessions db)) \<in> active_codes (sessions db)
           then Inl (Thrown UniqueViolation)
           else Inr (db\<lparr>sessions := sessions db @
                  [\<lparr>s_id = new_id, game_id = g_id g, host_id = uid,
                    code = fst (allocate_code random (sessions db)), status = lobby,
                    current_question_index = - 1, timer_seconds = g_timer_seconds g,
                    speed_bonus = g_speed_bonus g, ended_at = None\<rparr>]\<rparr>)))"
proof (intro conjI impI)
  show "allocate_code random ss = (candidate random k, k)"
    if "active_codes_unique ss \<and> k < 5 \<and> (\<forall>j<k. candidate random j \<in> active_codes ss)
      \<and> candidate random k \<notin> active_codes ss"
    using that allocate_code_first_free [of ss k random] by simp
  show "allocate_code random ss = (candidate random 5, 5)"
    if "active_codes_unique ss \<and> (\<forall>j<5. candidate random j \<in> active_codes ss)"
    using that allocate_code_all_taken [of ss random] by simp
  show "fst (allocate_code random ss) \<notin> active_codes ss"
    if a: "active_codes_unique ss \<and> (\<exists>j<5. candidate random j \<notin> active_codes ss)"
  proof -
    from a have "\<exists>j<5. candidate random j \<notin> active_codes ss" by simp
    from first_free_exists [OF this]
    obtain k where k: "k < 5" "candidate random k \<notin> active_codes ss"
      "\<forall>j<k. candidate random j \<in> active_codes ss"
      by blast
    from a have u: "active_codes_unique ss" by simp
    from allocate_code_first_free [OF u k(1) k(3) k(2)] k(2) show ?thesis by simp
  qed
  show "snd (allocate_code random ss) \<le> 5" if u: "active_codes_unique ss"
  proof (cases "\<exists>j<5. candidate random j \<notin> active_codes ss")
    case True
    from first_free_exists [OF this]
    obtain k where k: "k < 5" "candidate random k \<notin> active_codes ss"
      "\<forall>j<k. candidate random j \<in> active_codes ss"
      by blast
    from allocate_code_first_free [OF u k(1) k(3) k(2)] k(1) show ?thesis by simp
  next
    case False
    then have "\<forall>j<5. candidate random j \<in> active_codes ss" by simp
    from allocate_code_all_taken [OF u this] show ?thesis by simp
  qed
  show "handleStartSession random new_id game questions_length user db
        = (if fst (allocate_code random (sessions db)) \<in> active_codes (sessions db)
           then Inl (Thrown UniqueViolation)
           else Inr (db\<lparr>sessions := sessions db @
                  [\<lparr>s_id = new_id, game_id = g_id g, host_id = uid,
                    code = fst (allocate_code random (sessions db)), status = lobby,
                    current_question_index = - 1, timer_seconds = g_timer_seconds g,
                    speed_bonus = g_speed_bonus g, ended_at = None\<rparr>]\<rparr>))"
    if "game = Some g \<and> questions_length \<noteq> 0 \<and> user = Some uid"
    using that handleStartSession_insert [of game g questions_length user uid random new_id db]
    by simp
qed

theorem allocate_code_result_witness:
  "active_codes_unique (sessions sample_db)
   \<and> candidate lucky_random 0 = ''AB23CD''
   \<and> ''AB23CD'' \<in> active_codes (sessions sample_db)
   \<and> candidate lucky_random 1 = ''999999''
   \<and> ''999999'' \<notin> active_codes (sessions sample_db)
   \<and> allocate_code lucky_random (sessions sample_db) = (''999999'', 1)
   \<and> handleStartSession lucky_random 2 (Some sample_game) 3 (Some 9) sample_db
       = Inr (sample_db\<lparr>sessions := sessions sample_db @
              [\<lparr>s_id = 2, game_id = 7, host_id = 9, code = ''999999'', status = lobby,
                current_question_index = - 1, timer_seconds = 30, speed_bonus = True,
                ended_at = None\<rparr>]\<rparr>)"
proof -
  have u: "active_codes_unique (sessions sample_db)"
    by code_simp
  have c0: "candidate lucky_random 0 = ''AB23CD''"
    by code_simp
  have c1: "candidate lucky_random 1 = ''999999''"
    by code_simp
  have taken: "''AB23CD'' \<in> active_codes (sessions sample_db)"
    by code_simp
  have free: "''999999'' \<notin> active_codes (sessions sample_db)"
    by code_simp
  have below: "\<forall>j<1. candidate lucky_random j \<in> active_codes (sessions sample_db)"
    using c0 taken by simp
  from allocate_code_result
    [where ss = "sessions sample_db" and k = 1 and random = lucky_random]
    u below c1 free
  have a: "allocate_code lucky_random (sessions sample_db) = (''999999'', 1)"
    by simp
  have g: "g_id sample_game = 7 \<and> g_timer_seconds sample_game = 30 \<and> g_speed_bonus sample_game"
    by (simp add: sample_game_def)
  from allocate_code_result
    [where game = "Some sample_game" and g = sample_game and questions_length = 3
       and user = "Some 9" and uid = 9 and random = lucky_random and db = sample_db
       and new_id = 2]
  have "handleStartSession lucky_random 2 (Some sample_game) 3 (Some 9) sample_db
    = (if fst (allocate_code lucky_random (sessions sample_db)) \<in> active_codes (sessions sample_db)
       then Inl (Thrown UniqueViolation)
       else Inr (sample_db\<lparr>sessions := sessions sample_db @
              [\<lparr>s_id = 2, game_id = g_id sample_game, host_id = 9,
                code = fst (allocate_code lucky_random (sessions sample_db)), status = lobby,
                current_question_index = - 1, timer_seconds = g_timer_seconds sample_game,
                speed_bonus = g_speed_bonus sample_game, ended_at = None\<rparr>]\<rparr>))"
    by simp
  then have h: "handleStartSession lucky_random 2 (Some sample_game) 3 (Some 9) sample_db
       = Inr (sample_db\<lparr>sessions := sessions sample_db @
              [\<lparr>s_id = 2, game_id = 7, host_id = 9, code = ''999999'', status = lobby,
                current_question_index = - 1, timer_seconds = 30, speed_bonus = True,
                ended_at = None\<rparr>]\<rparr>)"
    unfolding a using free g by simp
  from u c0 c1 taken free a h show ?thesis
    by (intro conjI)
qed

text \<open>
  The claim as the specification states it fails: with a generator that returns the code
  of the playing sample session at every call, the five checks collide, the code returned
  is that session's code, and the insert of the new session is refused.
\<close>

theorem allocate_code_collision_counterexample:
  "active_codes_unique (sessions sample_db)
   \<and> status sample_session = playing
   \<and> allocate_code stuck_random (sessions sample_db) = (code sample_session, 5)
   \<and> fst (allocate_code stuck_random (sessions sample_db)) \<in> active_codes (sessions sample_db)
   \<and> handleStartSession stuck_random 2 (Some sample_game) 3 (Some 9) sample_db
       = Inl (Thrown UniqueViolation)"
proof (intro conjI)
  show "active_codes_unique (sessions sample_db)"
    by code_simp
  show "status sample_session = playing"
    by (simp add: sample_session_def)
  show "allocate_code stuck_random (sessions sample_db) = (code sample_session, 5)"
    by code_simp
  show "fst (allocate_code stuck_random (sessions sample_db)) \<in> active_codes (sessions sample_db)"
    by code_simp
  show "handleStartSession stuck_random 2 (Some sample_game) 3 (Some 9) sample_db
       = Inl (Thrown UniqueViolation)"
    by code_simp
qed

end
